theory Spec2Isabelle
  imports Complex_Main "HOL-Library.Sublist"
begin

section \<open>JSON values as the processor sees them\<close>

text \<open>
  The document handed to \<open>JSONProcessor\<close> is the result of \<open>JSON.parse\<close>: null, booleans,
  numbers, strings, arrays and objects. An object is the list of its own properties in
  enumeration order. \<open>JUndefined\<close> is the value read from a missing property or an array
  hole. An array carries, besides its elements, the named (non-index) own properties that
  \<open>_.set\<close> may attach to it; a parsed document has none.
  A string is the list of its code units.
\<close>

datatype jv =
    JNull
  | JBool bool
  | JNum rat
  | JStr string
  | JArr "jv list" "(string \<times> jv) list"
  | JObj "(string \<times> jv) list"
  | JUndefined

text \<open>Keys as \<open>_.forEach\<close> passes them: a number for an index, a string for a property.\<close>

datatype key = KNum nat | KStr string

text \<open>The accumulated path: the empty string at the root, then a key or a joined string.\<close>

datatype pth = PNum nat | PStr string

record node =
  node_path :: pth
  node_type :: string
  node_value :: jv

datatype match_type = MKey | MValue

record match =
  match_path :: pth
  match_key :: key
  match_value :: jv
  matchType :: match_type

subsection \<open>Host and lodash primitives\<close>

fun isObject :: "jv \<Rightarrow> bool" where
  "isObject (JArr xs ps) = True"
| "isObject (JObj kvs) = True"
| "isObject v = False"

fun isArray :: "jv \<Rightarrow> bool" where
  "isArray (JArr xs ps) = True"
| "isArray v = False"

fun isString :: "jv \<Rightarrow> bool" where
  "isString (JStr s) = True"
| "isString v = False"

text \<open>The \<open>typeof\<close> operator.\<close>

fun typeof :: "jv \<Rightarrow> string" where
  "typeof JNull = ''object''"
| "typeof (JBool b) = ''boolean''"
| "typeof (JNum n) = ''number''"
| "typeof (JStr s) = ''string''"
| "typeof (JArr xs ps) = ''object''"
| "typeof (JObj kvs) = ''object''"
| "typeof JUndefined = ''undefined''"

text \<open>Decimal rendering of a non-negative integer (\<open>String(n)\<close>).\<close>

fun show_nat :: "nat \<Rightarrow> string" where
  "show_nat n = (if n < 10 then [char_of (48 + n)]
                 else show_nat (n div 10) @ [char_of (48 + n mod 10)])"

declare show_nat.simps [simp del]

fun key_str :: "key \<Rightarrow> string" where
  "key_str (KNum n) = show_nat n"
| "key_str (KStr s) = s"

fun pth_str :: "pth \<Rightarrow> string" where
  "pth_str (PNum n) = show_nat n"
| "pth_str (PStr s) = s"

text \<open>Truthiness of a path: the empty string and the number 0 are falsy.\<close>

fun truthy :: "pth \<Rightarrow> bool" where
  "truthy (PNum n) = (n \<noteq> 0)"
| "truthy (PStr s) = (s \<noteq> [])"

text \<open>\<open>path ? `${path}.${key}` : key\<close>\<close>

fun key_pth :: "key \<Rightarrow> pth" where
  "key_pth (KNum n) = PNum n"
| "key_pth (KStr s) = PStr s"

definition currentPath :: "pth \<Rightarrow> key \<Rightarrow> pth" where
  "currentPath path k = (if truthy path then PStr (pth_str path @ ''.'' @ key_str k) else key_pth k)"

definition MAX_ARRAY_INDEX :: int where
  "MAX_ARRAY_INDEX = 4294967294"

definition is_digit :: "char \<Rightarrow> bool" where
  "is_digit c = ((48::nat) \<le> of_char c \<and> of_char c \<le> (57::nat))"

definition digits_nat :: "string \<Rightarrow> nat" where
  "digits_nat s = foldl (\<lambda>a c. 10 * a + (of_char c - 48)) 0 s"

text \<open>\<open>reIsUint = /^(?:0|[1-9]\d*)$/\<close>: a canonical decimal numeral.\<close>

definition isUint :: "string \<Rightarrow> bool" where
  "isUint s = (s \<noteq> [] \<and> list_all is_digit s \<and> (hd s = CHR ''0'' \<longrightarrow> s = ''0''))"

text \<open>A property name that the host treats as an array index.\<close>

definition array_index :: "string \<Rightarrow> nat option" where
  "array_index s = (if isUint s \<and> int (digits_nat s) \<le> MAX_ARRAY_INDEX then Some (digits_nat s) else None)"

definition lookup :: "(string \<times> jv) list \<Rightarrow> string \<Rightarrow> jv" where
  "lookup kvs k = (case map_of kvs k of Some v \<Rightarrow> v | None \<Rightarrow> JUndefined)"

text \<open>
  The own properties of a value: the keys of an object; the indices below the length, the
  \<open>length\<close> and the named properties of an array; the indices below the length and the
  \<open>length\<close> of a string. Other values have none.
\<close>

fun has_own :: "jv \<Rightarrow> string \<Rightarrow> bool" where
  "has_own (JObj kvs) k = (k \<in> set (map fst kvs))"
| "has_own (JArr xs ps) k = (k = ''length'' \<or> (case array_index k of
       Some i \<Rightarrow> i < length xs
     | None \<Rightarrow> k \<in> set (map fst ps)))"
| "has_own (JStr s) k = (k = ''length'' \<or> (case array_index k of
       Some i \<Rightarrow> i < length s
     | None \<Rightarrow> False))"
| "has_own v k = False"

text \<open>The value of an own property, \<open>JUndefined\<close> where the value has no such property.\<close>

fun own_prop :: "jv \<Rightarrow> string \<Rightarrow> jv" where
  "own_prop (JObj kvs) k = lookup kvs k"
| "own_prop (JArr xs ps) k =
     (if k = ''length'' then JNum (of_nat (length xs))
      else (case array_index k of
              Some i \<Rightarrow> (if i < length xs then xs ! i else JUndefined)
            | None \<Rightarrow> lookup ps k))"
| "own_prop (JStr s) k =
     (if k = ''length'' then JNum (of_nat (length s))
      else (case array_index k of
              Some i \<Rightarrow> (if i < length s then JStr [s ! i] else JUndefined)
            | None \<Rightarrow> JUndefined))"
| "own_prop v k = JUndefined"

text \<open>\<open>isLength\<close>: a number that is an integer in \<open>[0, MAX_SAFE_INTEGER]\<close>.\<close>

definition MAX_SAFE_INTEGER :: int where
  "MAX_SAFE_INTEGER = 9007199254740991"

definition isLength :: "jv \<Rightarrow> bool" where
  "isLength v = (case v of JNum n \<Rightarrow> 0 \<le> n \<and> n = of_int \<lfloor>n\<rfloor> \<and> \<lfloor>n\<rfloor> \<le> MAX_SAFE_INTEGER | _ \<Rightarrow> False)"

definition length_of :: "jv \<Rightarrow> nat" where
  "length_of v = (case v of JNum n \<Rightarrow> nat \<lfloor>n\<rfloor> | _ \<Rightarrow> 0)"

text \<open>
  \<open>isArrayLike\<close> looks at \<open>value.length\<close>: an array always qualifies, an object qualifies
  when it has a property \<open>length\<close> holding a valid length.
\<close>

fun isArrayLike :: "jv \<Rightarrow> bool" where
  "isArrayLike (JArr xs ps) = True"
| "isArrayLike (JObj kvs) = isLength (lookup kvs ''length'')"
| "isArrayLike v = False"

text \<open>
  The pairs \<open>(key, value)\<close> that \<open>_.forEach(obj, fn)\<close> hands to \<open>fn\<close>, in order. Arrays and
  array-like objects are walked by index from 0 to \<open>length - 1\<close>; other objects by own key.
  The callbacks of this program return nothing, so the walk is never cut short.
\<close>

fun forEach_entries :: "jv \<Rightarrow> (key \<times> jv) list" where
  "forEach_entries (JArr xs ps) = map (\<lambda>i. (KNum i, xs ! i)) [0..<length xs]"
| "forEach_entries (JObj kvs) =
     (if isArrayLike (JObj kvs)
      then map (\<lambda>i. (KNum i, lookup kvs (show_nat i))) [0..<length_of (lookup kvs ''length'')]
      else map (\<lambda>(k, v). (KStr k, v)) kvs)"
| "forEach_entries v = []"

text \<open>\<open>_.size\<close>: the length of an array-like, the number of own keys otherwise.\<close>

fun size_lodash :: "jv \<Rightarrow> nat" where
  "size_lodash (JArr xs ps) = length xs"
| "size_lodash (JObj kvs) =
     (if isArrayLike (JObj kvs) then length_of (lookup kvs ''length'') else length kvs)"
| "size_lodash v = 0"

lemma lookup_size: "size (lookup kvs k) < Suc (size_list (size_prod (\<lambda>_. 0) size) kvs)"
proof (induction kvs)
  case Nil
  show ?case by (simp add: lookup_def)
next
  case (Cons a kvs)
  then show ?case by (cases a) (auto simp: lookup_def split: option.splits if_splits)
qed

lemma forEach_entries_size:
  "(k, v) \<in> set (forEach_entries obj) \<Longrightarrow> size v < size obj"
proof (cases obj)
  case (JArr xs ps)
  assume "(k, v) \<in> set (forEach_entries obj)"
  with JArr obtain i where "i < length xs" "v = xs ! i" by auto
  then have "v \<in> set xs" by simp
  then have "size v \<le> size_list size xs" by (simp add: size_list_estimation')
  with JArr show ?thesis by simp
next
  case (JObj kvs)
  assume a: "(k, v) \<in> set (forEach_entries obj)"
  show ?thesis
  proof (cases "isArrayLike (JObj kvs)")
    case True
    with a JObj obtain i where "v = lookup kvs (show_nat i)" by auto
    with JObj show ?thesis using lookup_size [of kvs "show_nat i"] by simp
  next
    case False
    with a JObj obtain k' where "(k', v) \<in> set kvs" by auto
    then have "size_prod (\<lambda>_. 0) size (k', v) \<le> size_list (size_prod (\<lambda>_. 0) size) kvs"
      by (simp add: size_list_estimation')
    with JObj show ?thesis by simp
  qed
qed auto

section \<open>listAllNodes\<close>

function traverse_nodes :: "jv \<Rightarrow> pth \<Rightarrow> node list" where
  "traverse_nodes obj path =
     (if isObject obj
      then concat (map (\<lambda>(k, v).
             \<lparr> node_path = currentPath path k,
               node_type = (if isArray v then ''array'' else if isObject v then ''object'' else typeof v),
               node_value = (if isObject v
                             then JStr ((if isArray v then ''Array'' else ''Object'') @ ''['' @ show_nat (size_lodash v) @ '']'')
                             else v) \<rparr>
             # (if isObject v then traverse_nodes v (currentPath path k) else []))
           (forEach_entries obj))
      else [])"
  by pat_completeness auto
termination
  by (relation "measure (\<lambda>(obj, path). size obj)") (auto simp: forEach_entries_size)

declare traverse_nodes.simps [simp del]

definition listAllNodes :: "jv \<Rightarrow> node list" where
  "listAllNodes data = traverse_nodes data (PStr [])"

section \<open>search\<close>

text \<open>
  \<open>String.prototype.toLowerCase\<close> is the host's and is a parameter of \<open>search\<close>. On a text
  of ASCII characters it is \<open>ascii_lower\<close>, which the examples use.
\<close>

definition lower_char :: "char \<Rightarrow> char" where
  "lower_char c = (if (65::nat) \<le> of_char c \<and> of_char c \<le> (90::nat) then char_of (of_char c + (32::nat)) else c)"

definition ascii_lower :: "string \<Rightarrow> string" where
  "ascii_lower s = map lower_char s"

text \<open>\<open>s.str_includes(q)\<close>: \<open>q\<close> occurs in \<open>s\<close> as a contiguous run.\<close>

fun str_includes :: "string \<Rightarrow> string \<Rightarrow> bool" where
  "str_includes [] q = (q = [])"
| "str_includes (c # s) q = (prefix q (c # s) \<or> str_includes s q)"

fun str_of :: "jv \<Rightarrow> string" where
  "str_of (JStr s) = s"
| "str_of v = []"

function traverse_search :: "(string \<Rightarrow> string) \<Rightarrow> string \<Rightarrow> jv \<Rightarrow> pth \<Rightarrow> match list" where
  "traverse_search toLowerCase lowerQuery obj path =
     (if isObject obj
      then concat (map (\<lambda>(k, v).
             (if str_includes (toLowerCase (key_str k)) lowerQuery
              then [\<lparr> match_path = currentPath path k, match_key = k, match_value = v, matchType = MKey \<rparr>]
              else [])
             @ (if isString v \<and> str_includes (toLowerCase (str_of v)) lowerQuery
                then [\<lparr> match_path = currentPath path k, match_key = k, match_value = v, matchType = MValue \<rparr>]
                else [])
             @ traverse_search toLowerCase lowerQuery v (currentPath path k))
           (forEach_entries obj))
      else [])"
  by pat_completeness auto
termination
  by (relation "measure (\<lambda>(f, q, obj, path). size obj)") (auto simp: forEach_entries_size)

declare traverse_search.simps [simp del]

definition search :: "(string \<Rightarrow> string) \<Rightarrow> jv \<Rightarrow> string \<Rightarrow> match list" where
  "search toLowerCase data query = traverse_search toLowerCase (toLowerCase query) data (PStr [])"

section \<open>The entries both traversals visit\<close>

text \<open>
  \<open>search\<close> and \<open>listAllNodes\<close> run the same walk: every entry of every object or array
  reached from the root, parent before children, with the path accumulated so far.
\<close>

function visited_from :: "jv \<Rightarrow> pth \<Rightarrow> (pth \<times> key \<times> jv) list" where
  "visited_from obj path =
     (if isObject obj
      then concat (map (\<lambda>(k, v). (currentPath path k, k, v) # visited_from v (currentPath path k))
                       (forEach_entries obj))
      else [])"
  by pat_completeness auto
termination
  by (relation "measure (\<lambda>(obj, path). size obj)") (auto simp: forEach_entries_size)

declare visited_from.simps [simp del]

definition visited :: "jv \<Rightarrow> (pth \<times> key \<times> jv) list" where
  "visited data = visited_from data (PStr [])"

section \<open>lodash paths: \<open>castPath\<close>, \<open>_.get\<close>, \<open>_.set\<close>\<close>

subsection \<open>\<open>stringToPath\<close>\<close>

text \<open>
  \<open>stringToPath\<close> pushes an empty key for a leading dot and then one key per match of
  \<open>rePropName\<close>, scanning left to right. At each position the alternatives are tried in
  order:
  \<^enum> a maximal run of characters other than \<open>.\<close>, \<open>[\<close>, \<open>]\<close>;
  \<^enum> a bracket group holding a number \<open>-?\d+(\.\d+)?\<close> or a quoted string with backslash
    escapes (the key is the unescaped string);
  \<^enum> the empty match in front of a separator (\<open>.\<close> or \<open>[]\<close>) that is followed by another
    separator or by the end of the string: an empty key.
  A position where nothing matches is skipped.
\<close>

definition path_char :: "char \<Rightarrow> bool" where
  "path_char c = (c \<noteq> CHR ''.'' \<and> c \<noteq> CHR ''['' \<and> c \<noteq> CHR '']'')"

definition backslash :: char where
  "backslash = char_of (92::nat)"

definition line_terminator :: "char \<Rightarrow> bool" where
  "line_terminator c = (c = char_of (10::nat) \<or> c = char_of (13::nat))"

text \<open>After \<open>[\<close>: the number and what follows the closing bracket.\<close>

definition match_number :: "string \<Rightarrow> (string \<times> string) option" where
  "match_number s =
     (let sgn = (if s \<noteq> [] \<and> hd s = CHR ''-'' then ''-'' else []);
          s1 = drop (length sgn) s;
          ds = takeWhile is_digit s1;
          s2 = dropWhile is_digit s1
      in if ds = [] then None
         else (case s2 of
                 [] \<Rightarrow> None
               | c # s3 \<Rightarrow>
                   if c = CHR '']'' then Some (sgn @ ds, s3)
                   else if c = CHR ''.'' then
                     (let fs = takeWhile is_digit s3; s4 = dropWhile is_digit s3
                      in if fs = [] then None
                         else (case s4 of
                                 [] \<Rightarrow> None
                               | d # r \<Rightarrow> if d = CHR '']'' then Some (sgn @ ds @ ''.'' @ fs, r) else None))
                   else None))"

text \<open>
  After the opening quote \<open>q\<close>: the raw body up to the closing quote, which must be followed
  by \<open>]\<close>, and what follows that bracket. A backslash takes the next character with it
  (any character but a line terminator).
\<close>

fun match_quoted :: "char \<Rightarrow> string \<Rightarrow> (string \<times> string) option" where
  "match_quoted q [] = None"
| "match_quoted q [c] = None"
| "match_quoted q (c # d # cs) =
     (if c = q then (if d = CHR '']'' then Some ([], cs) else None)
      else if c = backslash then
        (if line_terminator d then None
         else map_option (\<lambda>(b, r). (c # d # b, r)) (match_quoted q cs))
      else map_option (\<lambda>(b, r). (c # b, r)) (match_quoted q (d # cs)))"

text \<open>\<open>subString.replace(/\\(\\)?/g, '$1')\<close>\<close>

fun unescape :: "string \<Rightarrow> string" where
  "unescape [] = []"
| "unescape [c] = (if c = backslash then [] else [c])"
| "unescape (c # d # cs) =
     (if c = backslash then (if d = backslash then backslash # unescape cs else unescape (d # cs))
      else c # unescape (d # cs))"

text \<open>After \<open>[\<close>: the key of a bracket group and what follows the group.\<close>

definition match_bracket :: "string \<Rightarrow> (string \<times> string) option" where
  "match_bracket s =
     (case match_number s of
        Some r \<Rightarrow> Some r
      | None \<Rightarrow>
          (case s of
             [] \<Rightarrow> None
           | q # body \<Rightarrow>
               if q = CHR 0x22 \<or> q = CHR 0x27
               then map_option (\<lambda>(b, r). (unescape b, r)) (match_quoted q body)
               else None))"

definition after_sep :: "string \<Rightarrow> string option" where
  "after_sep s =
     (case s of
        [] \<Rightarrow> None
      | c # r \<Rightarrow>
          if c = CHR ''.'' then Some r
          else if c = CHR ''['' \<and> r \<noteq> [] \<and> hd r = CHR '']'' then Some (tl r)
          else None)"

definition empty_key_here :: "string \<Rightarrow> bool" where
  "empty_key_here s = (case after_sep s of None \<Rightarrow> False | Some r \<Rightarrow> r = [] \<or> after_sep r \<noteq> None)"

lemma match_number_shorter: "match_number s = Some (k, r) \<Longrightarrow> length r < Suc (length s)"
proof -
  have d: "\<And>P (xs::string) y ys. dropWhile P xs = y # ys \<Longrightarrow> length ys < length xs"
    by (metis length_dropWhile_le length_Cons less_eq_Suc_le)
  assume "match_number s = Some (k, r)"
  then show ?thesis
    by (auto simp: match_number_def Let_def split: if_splits list.splits dest!: d)
qed

lemma match_quoted_shorter: "match_quoted q s = Some (b, r) \<Longrightarrow> length r < length s"
  by (induction q s arbitrary: b r rule: match_quoted.induct) (auto split: if_splits)

lemma match_bracket_shorter: "match_bracket s = Some (k, r) \<Longrightarrow> length r < Suc (length s)"
  by (auto simp: match_bracket_def split: option.splits list.splits if_splits
           dest: match_number_shorter match_quoted_shorter)

function scan :: "string \<Rightarrow> string list" where
  "scan [] = []"
| "scan (c # cs) =
     (if path_char c
      then takeWhile path_char (c # cs) # scan (dropWhile path_char cs)
      else (case (if c = CHR ''['' then match_bracket cs else None) of
              Some (k, rest) \<Rightarrow> k # scan rest
            | None \<Rightarrow> (if empty_key_here (c # cs) then [[]] else []) @ scan cs))"
  by pat_completeness auto
termination
  by (relation "measure length")
     (auto simp: length_dropWhile_le less_Suc_eq_le split: if_splits dest: match_bracket_shorter)

declare scan.simps(2) [simp del]

definition stringToPath :: "string \<Rightarrow> string list" where
  "stringToPath s = (if s \<noteq> [] \<and> hd s = CHR ''.'' then [[]] else []) @ scan s"

subsection \<open>\<open>isKey\<close>, \<open>castPath\<close>\<close>

text \<open>\<open>reIsPlainProp = /^\w*$/\<close>\<close>

definition word_char :: "char \<Rightarrow> bool" where
  "word_char c = (is_digit c \<or> c = CHR ''_''
     \<or> ((65::nat) \<le> of_char c \<and> of_char c \<le> (90::nat))
     \<or> ((97::nat) \<le> of_char c \<and> of_char c \<le> (122::nat)))"

definition isPlainProp :: "string \<Rightarrow> bool" where
  "isPlainProp s = list_all word_char s"

text \<open>
  \<open>reIsDeepProp\<close> finds a dot, or a \<open>[\<close> that is closed by a \<open>]\<close> with no bracket in
  between. (Its alternative for a quoted group can only match where a later \<open>[\<close> of the
  same group is closed in this way.)
\<close>

definition closes_group :: "string \<Rightarrow> bool" where
  "closes_group s = (case dropWhile (\<lambda>c. c \<noteq> CHR ''['' \<and> c \<noteq> CHR '']'') s of
                       [] \<Rightarrow> False | c # r \<Rightarrow> c = CHR '']'')"

fun has_group :: "string \<Rightarrow> bool" where
  "has_group [] = False"
| "has_group (c # cs) = ((c = CHR ''['' \<and> closes_group cs) \<or> has_group cs)"

definition isDeepProp :: "string \<Rightarrow> bool" where
  "isDeepProp s = (CHR ''.'' \<in> set s \<or> has_group s)"

text \<open>
  The members that a value inherits from the prototypes of the host (\<open>toString\<close>,
  \<open>valueOf\<close>, \<open>map\<close>, ...) are functions of the host and not part of a JSON document. The
  built-in prototypes name their members by words of letters, digits and underscores that do
  not begin with a digit; which of these words are taken is the parameter \<open>proto\<close>.
\<close>

definition member_name :: "string \<Rightarrow> bool" where
  "member_name k = (k \<noteq> [] \<and> list_all word_char k \<and> \<not> is_digit (hd k))"

definition inherited :: "(string \<Rightarrow> bool) \<Rightarrow> string \<Rightarrow> bool" where
  "inherited proto k = (member_name k \<and> proto k)"

text \<open>
  \<open>isKey\<close> asks \<open>value in Object(object)\<close> only for a text that is not a plain word. An
  inherited member has a plain name, so at that point only the own properties count.
\<close>

definition isKey :: "string \<Rightarrow> jv \<Rightarrow> bool" where
  "isKey s object = (isPlainProp s \<or> \<not> isDeepProp s \<or> has_own object s)"

text \<open>
  \<open>castPath(value, object)\<close> followed by \<open>toKey\<close> on every segment. A number is always a
  single key.
\<close>

fun castPath :: "pth \<Rightarrow> jv \<Rightarrow> string list" where
  "castPath (PNum n) object = [show_nat n]"
| "castPath (PStr s) object = (if isKey s object then [s] else stringToPath s)"

subsection \<open>\<open>_.get\<close>\<close>

definition nullish :: "jv \<Rightarrow> bool" where
  "nullish v = (v = JNull \<or> v = JUndefined)"

text \<open>
  \<open>object[key]\<close>: the own property when there is one, and \<open>undefined\<close> when the name is
  not inherited either. A name that the value inherits is resolved by the host to one of its
  own functions: \<open>None\<close>, a read that the document does not decide.
\<close>

definition get_prop :: "(string \<Rightarrow> bool) \<Rightarrow> jv \<Rightarrow> string \<Rightarrow> jv option" where
  "get_prop proto object k =
     (if has_own object k then Some (own_prop object k)
      else if inherited proto k then None
      else Some JUndefined)"

text \<open>The loop of \<open>baseGet\<close>: it stops at a null or undefined value.\<close>

fun get_keys :: "(string \<Rightarrow> bool) \<Rightarrow> jv \<Rightarrow> string list \<Rightarrow> jv option" where
  "get_keys proto object [] = Some object"
| "get_keys proto object (k # ks) =
     (if nullish object then Some JUndefined
      else (case get_prop proto object k of
              None \<Rightarrow> None
            | Some v \<Rightarrow> get_keys proto v ks))"

definition baseGet :: "(string \<Rightarrow> bool) \<Rightarrow> jv \<Rightarrow> pth \<Rightarrow> jv option" where
  "baseGet proto object path =
     (let ks = castPath path object in if ks = [] then Some JUndefined else get_keys proto object ks)"

definition lodash_get :: "(string \<Rightarrow> bool) \<Rightarrow> jv \<Rightarrow> pth \<Rightarrow> jv option" where
  "lodash_get proto object path = (if nullish object then Some JUndefined else baseGet proto object path)"

subsection \<open>\<open>_.set\<close>\<close>

text \<open>\<open>MAX_SAFE_INTEGER\<close> bounds \<open>isIndex\<close> when no length is given.\<close>

definition isIndex :: "string \<Rightarrow> bool" where
  "isIndex s = (isUint s \<and> int (digits_nat s) < MAX_SAFE_INTEGER)"

text \<open>
  A new property of an object: an array-index name goes among the index names in ascending
  order, ahead of every other name; any other name goes last.
\<close>

definition index_before :: "nat \<Rightarrow> string \<times> 'v \<Rightarrow> bool" where
  "index_before i e = (case array_index (fst e) of Some j \<Rightarrow> j < i | None \<Rightarrow> False)"

definition obj_insert :: "(string \<times> 'v) list \<Rightarrow> string \<Rightarrow> 'v \<Rightarrow> (string \<times> 'v) list" where
  "obj_insert kvs k v = (case array_index k of
       None \<Rightarrow> kvs @ [(k, v)]
     | Some i \<Rightarrow> takeWhile (index_before i) kvs @ [(k, v)] @ dropWhile (index_before i) kvs)"

definition obj_assign :: "(string \<times> 'v) list \<Rightarrow> string \<Rightarrow> 'v \<Rightarrow> (string \<times> 'v) list" where
  "obj_assign kvs k v =
     (if k \<in> set (map fst kvs) then map (\<lambda>e. if fst e = k then (k, v) else e) kvs
      else obj_insert kvs k v)"

text \<open>
  \<open>array.length = value\<close> is decided by the host: it converts the value to a number and takes
  it as the new length when that is an integer from 0 to \<open>2^32 - 1\<close>, and throws a
  \<open>RangeError\<close> otherwise. The conversion is a parameter, \<open>toLength\<close>: the new length, or the
  message of the error thrown.

  \<open>object[key] = value\<close> on an object or an array (the loop of \<open>baseSet\<close> writes into
  nothing else). An index past the end of an array leaves holes; a shorter length cuts the
  array and a longer one adds holes.
\<close>

fun assign :: "(jv \<Rightarrow> string + nat) \<Rightarrow> jv \<Rightarrow> string \<Rightarrow> jv \<Rightarrow> string + jv" where
  "assign toLength (JObj kvs) k v = Inr (JObj (obj_assign kvs k v))"
| "assign toLength (JArr xs ps) k v =
     (if k = ''length'' then
        (case toLength v of
           Inl message \<Rightarrow> Inl message
         | Inr n \<Rightarrow> Inr (JArr (take n xs @ replicate (n - length xs) JUndefined) ps))
      else (case array_index k of
              Some i \<Rightarrow> (if i < length xs then Inr (JArr (xs[i := v]) ps)
                         else Inr (JArr (xs @ replicate (i - length xs) JUndefined @ [v]) ps))
            | None \<Rightarrow> Inr (JArr xs (obj_assign ps k v))))"

text \<open>
  \<open>assignValue\<close> leaves the property alone when it is an own property that already holds the
  value (\<open>eq\<close>; two objects are equal only when they are the same object, and the value
  written here is never an object of the document).
\<close>

definition assignValue :: "(jv \<Rightarrow> string + nat) \<Rightarrow> jv \<Rightarrow> string \<Rightarrow> jv \<Rightarrow> string + jv" where
  "assignValue toLength object k v =
     (if has_own object k \<and> \<not> isObject v \<and> own_prop object k = v then Inr object
      else assign toLength object k v)"

definition guarded_key :: "string \<Rightarrow> bool" where
  "guarded_key k = (k = ''__proto__'' \<or> k = ''constructor'' \<or> k = ''prototype'')"

text \<open>
  A tree has no identity. Where the program goes on writing into an object that its parent
  holds under a key, the tree of the parent gets the tree of the child after these writes
  under that key.
\<close>

fun store_member :: "jv \<Rightarrow> string \<Rightarrow> jv \<Rightarrow> jv" where
  "store_member (JObj kvs) k v = JObj (map (\<lambda>e. if fst e = k then (k, v) else e) kvs)"
| "store_member (JArr xs ps) k v = (case array_index k of
       Some i \<Rightarrow> JArr (xs[i := v]) ps
     | None \<Rightarrow> JArr xs (map (\<lambda>e. if fst e = k then (k, v) else e) ps))"
| "store_member x k v = x"

text \<open>
  The loop of \<open>baseSet\<close> from the container \<open>nested\<close>: the container after the writes, or the
  message of the error that a write has thrown. A guarded key ends the loop with the writes
  made so far. Before the last key the value under the key is read; when it is an object the
  loop enters it, otherwise a fresh container is written under the key, an array when the
  next key is an index and an object when it is not, and the loop enters what is then read
  under the key. The last key gets the value.

  \<open>None\<close> is a walk that the document does not decide: a key that is inherited and not an
  own property (the host would read or write a member of one of its prototypes), and a walk
  that goes on in a value that is not an object (after writing the length of an array).
\<close>

fun set_keys :: "(string \<Rightarrow> bool) \<Rightarrow> (jv \<Rightarrow> string + nat) \<Rightarrow> jv \<Rightarrow> string list \<Rightarrow> jv \<Rightarrow> (string + jv) option" where
  "set_keys proto toLength nested [] v = Some (Inr nested)"
| "set_keys proto toLength nested [k] v =
     (if guarded_key k then Some (Inr nested)
      else if \<not> isObject nested then None
      else if \<not> has_own nested k \<and> inherited proto k then None
      else Some (assignValue toLength nested k v))"
| "set_keys proto toLength nested (k # k' # ks) v =
     (if guarded_key k then Some (Inr nested)
      else if \<not> isObject nested then None
      else (case get_prop proto nested k of
              None \<Rightarrow> None
            | Some objValue \<Rightarrow>
                if isObject objValue
                then (case set_keys proto toLength objValue (k' # ks) v of
                        None \<Rightarrow> None
                      | Some (Inl message) \<Rightarrow> Some (Inl message)
                      | Some (Inr child) \<Rightarrow> Some (Inr (store_member nested k child)))
                else (case assign toLength nested k (if isIndex k' then JArr [] [] else JObj []) of
                        Inl message \<Rightarrow> Some (Inl message)
                      | Inr nested' \<Rightarrow>
                          (case set_keys proto toLength (own_prop nested' k) (k' # ks) v of
                             None \<Rightarrow> None
                           | Some (Inl message) \<Rightarrow> Some (Inl message)
                           | Some (Inr child) \<Rightarrow> Some (Inr (store_member nested' k child))))))"

definition baseSet :: "(string \<Rightarrow> bool) \<Rightarrow> (jv \<Rightarrow> string + nat) \<Rightarrow> jv \<Rightarrow> pth \<Rightarrow> jv \<Rightarrow> (string + jv) option" where
  "baseSet proto toLength object path v =
     (if \<not> isObject object then Some (Inr object)
      else set_keys proto toLength object (castPath path object) v)"

definition lodash_set :: "(string \<Rightarrow> bool) \<Rightarrow> (jv \<Rightarrow> string + nat) \<Rightarrow> jv \<Rightarrow> pth \<Rightarrow> jv \<Rightarrow> (string + jv) option" where
  "lodash_set proto toLength object path v =
     (if nullish object then Some (Inr object) else baseSet proto toLength object path v)"

subsection \<open>\<open>_.cloneDeep\<close>\<close>

text \<open>
  An object is copied key by key, an array element by element. Of the named properties of an
  array only \<open>index\<close> and \<open>input\<close> are carried over, and only for a non-empty array whose
  first element is a string and that has an \<open>index\<close>.
\<close>

definition clone_array_props :: "jv list \<Rightarrow> (string \<times> jv) list \<Rightarrow> (string \<times> jv) list" where
  "clone_array_props xs ps =
     (if xs \<noteq> [] \<and> isString (hd xs) \<and> ''index'' \<in> set (map fst ps)
      then [(''index'', lookup ps ''index''), (''input'', lookup ps ''input'')]
      else [])"

primrec cloneDeep :: "jv \<Rightarrow> jv" where
  "cloneDeep JNull = JNull"
| "cloneDeep (JBool b) = JBool b"
| "cloneDeep (JNum n) = JNum n"
| "cloneDeep (JStr s) = JStr s"
| "cloneDeep (JArr xs ps) = JArr (map cloneDeep xs) (clone_array_props xs ps)"
| "cloneDeep (JObj kvs) = JObj (map (map_prod id cloneDeep) kvs)"
| "cloneDeep JUndefined = JUndefined"

section \<open>replace\<close>

record replace_result =
  original :: jv
  new :: jv
  path :: string
  data :: jv

text \<open>
  \<open>JSON.parse\<close> is the host's; it is a parameter here, \<open>None\<close> standing for the
  \<open>SyntaxError\<close> it throws, which the inner \<open>try\<close> catches. An error thrown by \<open>_.set\<close> is
  caught by the outer handler and thrown again as
  \<open>new Error(`Failed to replace value: ${error.message}`)\<close>: the result \<open>Inl\<close> with that
  message. \<open>_.get\<close> runs after \<open>_.set\<close>, on the processor's document.
\<close>

definition replace ::
  "(string \<Rightarrow> jv option) \<Rightarrow> (string \<Rightarrow> bool) \<Rightarrow> (jv \<Rightarrow> string + nat) \<Rightarrow> jv \<Rightarrow> string \<Rightarrow> string
     \<Rightarrow> (string + replace_result) option" where
  "replace JSON_parse proto toLength this_data pathText newValue =
     (let parsedValue = (case JSON_parse newValue of Some j \<Rightarrow> j | None \<Rightarrow> JStr newValue);
          newData = cloneDeep this_data
      in (case lodash_set proto toLength newData (PStr pathText) parsedValue of
            None \<Rightarrow> None
          | Some (Inl message) \<Rightarrow> Some (Inl (''Failed to replace value: '' @ message))
          | Some (Inr newData') \<Rightarrow>
              (case lodash_get proto this_data (PStr pathText) of
                 None \<Rightarrow> None
               | Some found \<Rightarrow>
                   Some (Inr \<lparr> original = found,
                              new = parsedValue,
                              path = pathText,
                              data = newData' \<rparr>))))"

section \<open>evaluate\<close>

text \<open>
  \<open>vm.runInContext\<close> is the host's script engine. It is a parameter of \<open>evaluate\<close>: given the
  script text and the root document bound to \<open>data\<close>, a run either completes, leaving a value
  in the context's \<open>result\<close>, or throws; in both cases it leaves the root object in some state,
  because \<open>data\<close> is the processor's own object and not a copy. \<open>None\<close> stands for a run
  that an engine given here does not describe.
\<close>

datatype thrown =
    ErrorObject string   \<comment> \<open>an object whose \<open>message\<close> is this string\<close>
  | ThrownNullish        \<comment> \<open>\<open>null\<close> or \<open>undefined\<close>\<close>
  | ThrownOther          \<comment> \<open>a value without a \<open>message\<close>\<close>

datatype failure =
    EvaluationError string   \<comment> \<open>\<open>new Error(`Failed to evaluate accessor: ...`)\<close>\<close>
  | HandlerTypeError         \<comment> \<open>reading \<open>message\<close> of \<open>null\<close> or \<open>undefined\<close> in the handler\<close>

type_synonym 'r engine = "string \<Rightarrow> jv \<Rightarrow> ((thrown + 'r) \<times> jv) option"

definition startsWith :: "string \<Rightarrow> string \<Rightarrow> bool" where
  "startsWith s p = prefix p s"

text \<open>The script that \<open>evaluate\<close> hands to the engine.\<close>

definition evaluate_code :: "string \<Rightarrow> string" where
  "evaluate_code accessor =
     (let code = ''result = data'';
          accessor' = (if \<not> startsWith accessor ''.'' \<and> \<not> startsWith accessor ''[''
                       then ''.'' @ accessor else accessor)
      in code @ accessor')"

text \<open>The \<open>catch\<close> block: \<open>throw new Error(`Failed to evaluate accessor: ${error.message}`)\<close>.\<close>

fun evaluate_catch :: "thrown \<Rightarrow> failure" where
  "evaluate_catch (ErrorObject m) = EvaluationError (''Failed to evaluate accessor: '' @ m)"
| "evaluate_catch ThrownNullish = HandlerTypeError"
| "evaluate_catch ThrownOther = EvaluationError (''Failed to evaluate accessor: '' @ ''undefined'')"

text \<open>The outcome of the call and the processor's document afterwards.\<close>

definition evaluate :: "'r engine \<Rightarrow> jv \<Rightarrow> string \<Rightarrow> ((failure + 'r) \<times> jv) option" where
  "evaluate runInContext this_data accessor =
     (case runInContext (evaluate_code accessor) this_data of
        None \<Rightarrow> None
      | Some (Inr result, data') \<Rightarrow> Some (Inr result, data')
      | Some (Inl error, data') \<Rightarrow> Some (Inl (evaluate_catch error), data'))"

subsection \<open>A fragment of the script language\<close>

text \<open>
  The engine on the scripts \<open>result = data<steps>\<close> and \<open>result = data<steps>=<n>\<close>, where a
  step is \<open>.name\<close> or \<open>[i]\<close> and \<open>n\<close>, \<open>i\<close> are canonical decimal numerals. A step reads an own
  property of an object or an element of an array; reading through \<open>null\<close> or \<open>undefined\<close>
  throws a \<open>TypeError\<close>. The assignment writes the number into the property that the last
  step names, in the object that the earlier steps reach, and its value is the number.
  Every other script, and every read that the host would resolve outside the document's own
  properties, is left undescribed (\<open>None\<close>).
\<close>

definition ident_char :: "char \<Rightarrow> bool" where
  "ident_char c = (word_char c \<or> c = CHR ''$'')"

definition safe_numeral :: "string \<Rightarrow> bool" where
  "safe_numeral ds = (isUint ds \<and> int (digits_nat ds) \<le> MAX_SAFE_INTEGER)"

function parse_steps :: "string \<Rightarrow> string list \<times> string" where
  "parse_steps s =
     (case s of
        [] \<Rightarrow> ([], s)
      | c # r \<Rightarrow>
          if c = CHR ''.'' then
            (let name = takeWhile ident_char r; rest = dropWhile ident_char r
             in if name \<noteq> [] \<and> \<not> is_digit (hd name)
                then (case parse_steps rest of (ks, t) \<Rightarrow> (name # ks, t))
                else ([], s))
          else if c = CHR ''['' then
            (let ds = takeWhile is_digit r; rest = dropWhile is_digit r
             in if safe_numeral ds \<and> rest \<noteq> [] \<and> hd rest = CHR '']''
                then (case parse_steps (tl rest) of (ks, t) \<Rightarrow> (ds # ks, t))
                else ([], s))
          else ([], s))"
  by pat_completeness auto
termination
proof (relation "measure length", goal_cases)
  case 1
  show ?case by simp
next
  case (2 s c r name rest)
  then show ?case using length_dropWhile_le [of ident_char r] by simp
next
  case (3 s c r ds rest)
  then show ?case using length_dropWhile_le [of is_digit r] by (cases "dropWhile is_digit r") auto
qed

declare parse_steps.simps [simp del]

definition parse_script :: "string \<Rightarrow> (string list \<times> nat option) option" where
  "parse_script code =
     (if prefix ''result = data'' code
      then (case parse_steps (drop (length ''result = data'') code) of
              (ks, rest) \<Rightarrow>
                if rest = [] then Some (ks, None)
                else if hd rest = CHR ''='' \<and> safe_numeral (tl rest) \<and> ks \<noteq> []
                then Some (ks, Some (digits_nat (tl rest)))
                else None)
      else None)"

text \<open>\<open>v[k]\<close> where the document itself decides the value.\<close>

fun member :: "jv \<Rightarrow> string \<Rightarrow> jv option" where
  "member (JObj kvs) k = (if k \<in> set (map fst kvs) then Some (lookup kvs k) else None)"
| "member (JArr xs ps) k = (case array_index k of
       Some i \<Rightarrow> Some (if i < length xs then xs ! i else JUndefined)
     | None \<Rightarrow> None)"
| "member v k = None"

definition nullish_name :: "jv \<Rightarrow> string" where
  "nullish_name v = (if v = JNull then ''null'' else ''undefined'')"

definition cannot_read :: "jv \<Rightarrow> string \<Rightarrow> thrown" where
  "cannot_read v k = ErrorObject (''Cannot read properties of '' @ nullish_name v
                                   @ '' (reading '' @ [CHR 0x27] @ k @ [CHR 0x27] @ '')'')"

definition cannot_set :: "jv \<Rightarrow> string \<Rightarrow> thrown" where
  "cannot_set v k = ErrorObject (''Cannot set properties of '' @ nullish_name v
                                  @ '' (setting '' @ [CHR 0x27] @ k @ [CHR 0x27] @ '')'')"

fun read_chain :: "jv \<Rightarrow> string list \<Rightarrow> (thrown + jv) option" where
  "read_chain v [] = Some (Inr v)"
| "read_chain v (k # ks) =
     (if nullish v then Some (Inl (cannot_read v k))
      else (case member v k of None \<Rightarrow> None | Some v' \<Rightarrow> read_chain v' ks))"

text \<open>\<open>v[k] = x\<close> for a key of an object and an index of an array.\<close>

fun write_member :: "jv \<Rightarrow> string \<Rightarrow> jv \<Rightarrow> jv option" where
  "write_member (JObj kvs) k x = Some (JObj (obj_assign kvs k x))"
| "write_member (JArr xs ps) k x = (case array_index k of
       Some i \<Rightarrow> Some (if i < length xs then JArr (xs[i := x]) ps
                        else JArr (xs @ replicate (i - length xs) JUndefined @ [x]) ps)
     | None \<Rightarrow> None)"
| "write_member v k x = None"

text \<open>The container after the write, or what was thrown on the way.\<close>

fun assign_chain :: "jv \<Rightarrow> string list \<Rightarrow> jv \<Rightarrow> (thrown + jv) option" where
  "assign_chain v [] x = None"
| "assign_chain v [k] x =
     (if nullish v then Some (Inl (cannot_set v k))
      else (case member v k of None \<Rightarrow> None | Some old \<Rightarrow> map_option Inr (write_member v k x)))"
| "assign_chain v (k # k' # ks) x =
     (if nullish v then Some (Inl (cannot_read v k))
      else (case member v k of
              None \<Rightarrow> None
            | Some v' \<Rightarrow>
                (case assign_chain v' (k' # ks) x of
                   None \<Rightarrow> None
                 | Some (Inl e) \<Rightarrow> Some (Inl e)
                 | Some (Inr v'') \<Rightarrow> map_option Inr (write_member v k v''))))"

definition member_engine :: "jv engine" where
  "member_engine code d =
     (case parse_script code of
        None \<Rightarrow> None
      | Some (ks, None) \<Rightarrow>
          (case read_chain d ks of None \<Rightarrow> None | Some r \<Rightarrow> Some (r, d))
      | Some (ks, Some n) \<Rightarrow>
          (case assign_chain d ks (JNum (of_nat n)) of
             None \<Rightarrow> None
           | Some (Inl e) \<Rightarrow> Some (Inl e, d)
           | Some (Inr d') \<Rightarrow> Some (Inr (JNum (of_nat n)), d')))"

text \<open>
  The values of \<open>JSON.parse\<close> on the texts of the examples: \<open>42\<close>, \<open>true\<close> and \<open>1\<close> parse,
  \<open>hello\<close> is rejected. The table says nothing about other texts.
\<close>

definition parse_examples :: "string \<Rightarrow> jv option" where
  "parse_examples s =
     (if s = ''42'' then Some (JNum 42)
      else if s = ''true'' then Some (JBool True)
      else if s = ''1'' then Some (JNum 1)
      else None)"

text \<open>
  The members of \<open>Object.prototype\<close>, for the examples. No key used in the examples is a
  member of any built-in prototype.
\<close>

definition object_members :: "string \<Rightarrow> bool" where
  "object_members k = (k \<in> set [''constructor'', ''__defineGetter__'', ''__defineSetter__'',
     ''hasOwnProperty'', ''__lookupGetter__'', ''__lookupSetter__'', ''isPrototypeOf'',
     ''propertyIsEnumerable'', ''toString'', ''valueOf'', ''__proto__'', ''toLocaleString''])"

text \<open>
  The host's reading of a value as an array length, for the examples: a number is a length
  when it is an integer from 0 to \<open>2^32 - 1\<close>; the string \<open>hello\<close> converts to \<open>NaN\<close> and is
  refused with the message \<open>Invalid array length\<close>. The table says nothing about other
  values.
\<close>

definition length_examples :: "jv \<Rightarrow> string + nat" where
  "length_examples v =
     (case v of
        JNum n \<Rightarrow> (if 0 \<le> n \<and> n = of_int \<lfloor>n\<rfloor> \<and> \<lfloor>n\<rfloor> \<le> 4294967295
                   then Inr (nat \<lfloor>n\<rfloor>) else Inl ''Invalid array length'')
      | _ \<Rightarrow> Inl ''Invalid array length'')"

text \<open>The document of the examples: \<open>{"users": [{"name": "Ann", "age": null}], "a": {"b": 1}}\<close>.\<close>

definition example_doc :: jv where
  "example_doc = JObj [(''users'', JArr [JObj [(''name'', JStr ''Ann''), (''age'', JNull)]] []),
                       (''a'', JObj [(''b'', JNum 1)])]"

section \<open>What the traversals emit\<close>

text \<open>The node that \<open>listAllNodes\<close> pushes for a visited entry.\<close>

definition entry_node :: "pth \<times> key \<times> jv \<Rightarrow> node" where
  "entry_node e = (case e of (p, k, v) \<Rightarrow>
     \<lparr> node_path = p,
       node_type = (if isArray v then ''array'' else if isObject v then ''object'' else typeof v),
       node_value = (if isObject v
                     then JStr ((if isArray v then ''Array'' else ''Object'') @ ''['' @ show_nat (size_lodash v) @ '']'')
                     else v) \<rparr>)"

text \<open>The matches that \<open>search\<close> pushes for a visited entry.\<close>

definition entry_matches :: "(string \<Rightarrow> string) \<Rightarrow> string \<Rightarrow> pth \<times> key \<times> jv \<Rightarrow> match list" where
  "entry_matches toLowerCase lowerQuery e = (case e of (p, k, v) \<Rightarrow>
     (if str_includes (toLowerCase (key_str k)) lowerQuery
      then [\<lparr> match_path = p, match_key = k, match_value = v, matchType = MKey \<rparr>] else [])
     @ (if isString v \<and> str_includes (toLowerCase (str_of v)) lowerQuery
        then [\<lparr> match_path = p, match_key = k, match_value = v, matchType = MValue \<rparr>] else []))"

text \<open>
  Every entry of a document: each key of each object and each index of each array, at any
  depth, a parent before its children, with the path that the traversals give it.
\<close>

function all_entries :: "jv \<Rightarrow> pth \<Rightarrow> (pth \<times> key \<times> jv) list" where
  "all_entries (JObj kvs) pa =
     concat (map (\<lambda>(k, v). (currentPath pa (KStr k), KStr k, v) # all_entries v (currentPath pa (KStr k))) kvs)"
| "all_entries (JArr xs ps) pa =
     concat (map (\<lambda>i. (currentPath pa (KNum i), KNum i, xs ! i) # all_entries (xs ! i) (currentPath pa (KNum i)))
                 [0..<length xs])"
| "all_entries JNull pa = []"
| "all_entries (JBool b) pa = []"
| "all_entries (JNum n) pa = []"
| "all_entries (JStr s) pa = []"
| "all_entries JUndefined pa = []"
  by pat_completeness auto
termination
proof (relation "measure (\<lambda>(obj, pa). size obj)", goal_cases)
  case 1
  show ?case by simp
next
  case (2 kvs pa e k v)
  then have "size_prod (\<lambda>_. 0) size (k, v) \<le> size_list (size_prod (\<lambda>_. 0) size) kvs"
    by (simp add: size_list_estimation')
  then show ?case by simp
next
  case (3 xs ps pa i)
  then have "xs ! i \<in> set xs" by simp
  then have "size (xs ! i) \<le> size_list size xs" by (simp add: size_list_estimation')
  then show ?case by simp
qed

declare all_entries.simps(1,2) [simp del]

text \<open>Documents in which no object has a \<open>length\<close> that makes it pass for array-like.\<close>

fun plain_objects :: "jv \<Rightarrow> bool" where
  "plain_objects (JObj kvs) = (\<not> isArrayLike (JObj kvs) \<and> (\<forall>e \<in> set kvs. plain_objects (snd e)))"
| "plain_objects (JArr xs ps) = (\<forall>x \<in> set xs. plain_objects x)"
| "plain_objects v = True"

text \<open>
  Documents whose paths can be read back: every object has distinct keys, each non-empty and
  free of the characters \<open>.\<close>, \<open>[\<close> and \<open>]\<close>, and every array is no longer than the host allows.
\<close>

definition safe_key :: "string \<Rightarrow> bool" where
  "safe_key k = (k \<noteq> [] \<and> list_all path_char k)"

definition MAX_ARRAY_LENGTH :: int where
  "MAX_ARRAY_LENGTH = 4294967295"

fun plain_keys :: "jv \<Rightarrow> bool" where
  "plain_keys (JObj kvs) = (distinct (map fst kvs) \<and> (\<forall>e \<in> set kvs. safe_key (fst e) \<and> plain_keys (snd e)))"
| "plain_keys (JArr xs ps) = (int (length xs) \<le> MAX_ARRAY_LENGTH \<and> (\<forall>x \<in> set xs. plain_keys x))"
| "plain_keys v = True"

definition join_keys :: "string list \<Rightarrow> string" where
  "join_keys ks = (case ks of [] \<Rightarrow> [] | k # r \<Rightarrow> k @ concat (map (\<lambda>k'. CHR ''.'' # k') r))"

definition dotted_doc :: jv where
  "dotted_doc = JObj [(''x'', JObj [(''a.b'', JNum 1)])]"


text \<open>A document as \<open>JSON.parse\<close> builds it: no array carries a named property.\<close>

fun parsed :: "jv \<Rightarrow> bool" where
  "parsed (JObj kvs) = (\<forall>e \<in> set kvs. parsed (snd e))"
| "parsed (JArr xs ps) = (ps = [] \<and> (\<forall>x \<in> set xs. parsed x))"
| "parsed v = True"

section \<open>The document as an object graph\<close>

text \<open>
  \<open>_.set\<close> writes into the objects it walks through. To see what \<open>replace\<close> does to the
  processor's document, the objects live in a store: a cell per object or array, holding
  scalars and references to other cells. A new object takes the next free address.
\<close>

datatype hval = VNull | VBool bool | VNum rat | VStr string | VUndefined | VRef nat

datatype cell = CObj "(string \<times> hval) list" | CArr "hval list" "(string \<times> hval) list"

type_synonym heap = "cell list"

definition lookup_h :: "(string \<times> hval) list \<Rightarrow> string \<Rightarrow> hval" where
  "lookup_h fs k = (case map_of fs k of Some v \<Rightarrow> v | None \<Rightarrow> VUndefined)"

text \<open>The own properties of a cell and their values, as for the trees.\<close>

fun cell_has :: "cell \<Rightarrow> string \<Rightarrow> bool" where
  "cell_has (CObj fs) k = (k \<in> set (map fst fs))"
| "cell_has (CArr vs ps) k = (k = ''length'' \<or> (case array_index k of
       Some i \<Rightarrow> i < length vs
     | None \<Rightarrow> k \<in> set (map fst ps)))"

fun cell_prop :: "cell \<Rightarrow> string \<Rightarrow> hval" where
  "cell_prop (CObj fs) k = lookup_h fs k"
| "cell_prop (CArr vs ps) k =
     (if k = ''length'' then VNum (of_nat (length vs))
      else (case array_index k of
              Some i \<Rightarrow> (if i < length vs then vs ! i else VUndefined)
            | None \<Rightarrow> lookup_h ps k))"

text \<open>
  \<open>object[key] = value\<close> on a cell; \<open>len\<close> is the host's reading of the value as an array
  length, the new length or the message of the error thrown.
\<close>

fun cell_assign :: "(string + nat) \<Rightarrow> cell \<Rightarrow> string \<Rightarrow> hval \<Rightarrow> string + cell" where
  "cell_assign len (CObj fs) k v = Inr (CObj (obj_assign fs k v))"
| "cell_assign len (CArr vs ps) k v =
     (if k = ''length'' then
        (case len of
           Inl message \<Rightarrow> Inl message
         | Inr n \<Rightarrow> Inr (CArr (take n vs @ replicate (n - length vs) VUndefined) ps))
      else (case array_index k of
              Some i \<Rightarrow> (if i < length vs then Inr (CArr (vs[i := v]) ps)
                         else Inr (CArr (vs @ replicate (i - length vs) VUndefined @ [v]) ps))
            | None \<Rightarrow> Inr (CArr vs (obj_assign ps k v))))"

text \<open>
  \<open>assignValue\<close> leaves the property alone when it is an own property that already holds the
  value; for a reference that is the same object.
\<close>

definition assignValue_h :: "(string + nat) \<Rightarrow> cell \<Rightarrow> string \<Rightarrow> hval \<Rightarrow> string + cell" where
  "assignValue_h len c k v =
     (if cell_has c k \<and> cell_prop c k = v then Inr c else cell_assign len c k v)"

text \<open>The own properties of a value in the store; a string has its indices and its length.\<close>

fun has_h :: "heap \<Rightarrow> hval \<Rightarrow> string \<Rightarrow> bool" where
  "has_h h (VRef a) k = (a < length h \<and> cell_has (h ! a) k)"
| "has_h h (VStr s) k = (k = ''length'' \<or> (case array_index k of
       Some i \<Rightarrow> i < length s
     | None \<Rightarrow> False))"
| "has_h h v k = False"

fun own_h :: "heap \<Rightarrow> hval \<Rightarrow> string \<Rightarrow> hval" where
  "own_h h (VRef a) k = (if a < length h then cell_prop (h ! a) k else VUndefined)"
| "own_h h (VStr s) k =
     (if k = ''length'' then VNum (of_nat (length s))
      else (case array_index k of
              Some i \<Rightarrow> (if i < length s then VStr [s ! i] else VUndefined)
            | None \<Rightarrow> VUndefined))"
| "own_h h v k = VUndefined"

text \<open>\<open>object[key]\<close> in the store; \<open>None\<close> where the host resolves an inherited name.\<close>

definition prop_h :: "(string \<Rightarrow> bool) \<Rightarrow> heap \<Rightarrow> hval \<Rightarrow> string \<Rightarrow> hval option" where
  "prop_h proto h object k =
     (if has_h h object k then Some (own_h h object k)
      else if inherited proto k then None
      else Some VUndefined)"

fun is_ref :: "hval \<Rightarrow> bool" where
  "is_ref (VRef a) = True"
| "is_ref v = False"

definition nullish_h :: "hval \<Rightarrow> bool" where
  "nullish_h v = (v = VNull \<or> v = VUndefined)"

text \<open>\<open>castPath\<close>, \<open>_.get\<close> and \<open>_.set\<close> on the store.\<close>

definition castPath_h :: "string \<Rightarrow> heap \<Rightarrow> hval \<Rightarrow> string list" where
  "castPath_h s h object =
     (if isPlainProp s \<or> \<not> isDeepProp s \<or> has_h h object s then [s] else stringToPath s)"

fun get_keys_h :: "(string \<Rightarrow> bool) \<Rightarrow> heap \<Rightarrow> hval \<Rightarrow> string list \<Rightarrow> hval option" where
  "get_keys_h proto h object [] = Some object"
| "get_keys_h proto h object (k # ks) =
     (if nullish_h object then Some VUndefined
      else (case prop_h proto h object k of
              None \<Rightarrow> None
            | Some v \<Rightarrow> get_keys_h proto h v ks))"

definition lodash_get_h :: "(string \<Rightarrow> bool) \<Rightarrow> heap \<Rightarrow> hval \<Rightarrow> string \<Rightarrow> hval option" where
  "lodash_get_h proto h object s =
     (if nullish_h object then Some VUndefined
      else let ks = castPath_h s h object in if ks = [] then Some VUndefined else get_keys_h proto h object ks)"

text \<open>
  The loop of \<open>baseSet\<close> from the container at address \<open>a\<close>, writing the value \<open>v\<close> that
  stands for the tree \<open>j\<close>: the store after the writes, with the message of the error when a
  write has thrown. An object found under the key is entered as it is. Otherwise a fresh
  container is allocated and written under the key, and the loop enters what is then read
  under the key. As for the trees, \<open>None\<close> is a walk that the document does not decide.
\<close>

fun set_keys_h ::
  "(string \<Rightarrow> bool) \<Rightarrow> (jv \<Rightarrow> string + nat) \<Rightarrow> heap \<Rightarrow> nat \<Rightarrow> string list \<Rightarrow> hval \<Rightarrow> jv
     \<Rightarrow> (string option \<times> heap) option" where
  "set_keys_h proto toLength h a [] v j = Some (None, h)"
| "set_keys_h proto toLength h a [k] v j =
     (if guarded_key k then Some (None, h)
      else if \<not> cell_has (h ! a) k \<and> inherited proto k then None
      else (case assignValue_h (toLength j) (h ! a) k v of
              Inl message \<Rightarrow> Some (Some message, h)
            | Inr c \<Rightarrow> Some (None, h[a := c])))"
| "set_keys_h proto toLength h a (k # k' # ks) v j =
     (if guarded_key k then Some (None, h)
      else if \<not> cell_has (h ! a) k \<and> inherited proto k then None
      else (case cell_prop (h ! a) k of
              VRef b \<Rightarrow> set_keys_h proto toLength h b (k' # ks) v j
            | objValue \<Rightarrow>
                (let b = length h;
                     h1 = h @ [if isIndex k' then CArr [] [] else CObj []]
                 in (case cell_assign (toLength (if isIndex k' then JArr [] [] else JObj [])) (h1 ! a) k (VRef b) of
                       Inl message \<Rightarrow> Some (Some message, h1)
                     | Inr c \<Rightarrow>
                         (case cell_prop c k of
                            VRef b' \<Rightarrow> set_keys_h proto toLength (h1[a := c]) b' (k' # ks) v j
                          | primitive \<Rightarrow> None)))))"

definition lodash_set_h ::
  "(string \<Rightarrow> bool) \<Rightarrow> (jv \<Rightarrow> string + nat) \<Rightarrow> heap \<Rightarrow> hval \<Rightarrow> string \<Rightarrow> hval \<Rightarrow> jv
     \<Rightarrow> (string option \<times> heap) option" where
  "lodash_set_h proto toLength h object s v j =
     (case object of
        VRef a \<Rightarrow> set_keys_h proto toLength h a (castPath_h s h object) v j
      | scalar \<Rightarrow> Some (None, h))"

text \<open>Running a store operation over a list, left to right.\<close>

fun map_heap :: "(heap \<Rightarrow> 'a \<Rightarrow> ('b \<times> heap) option) \<Rightarrow> heap \<Rightarrow> 'a list \<Rightarrow> ('b list \<times> heap) option" where
  "map_heap f h [] = Some ([], h)"
| "map_heap f h (x # xs) =
     (case f h x of
        None \<Rightarrow> None
      | Some (y, h1) \<Rightarrow>
          (case map_heap f h1 xs of
             None \<Rightarrow> None
           | Some (ys, h2) \<Rightarrow> Some (y # ys, h2)))"

definition on_field :: "(heap \<Rightarrow> 'a \<Rightarrow> ('b \<times> heap) option) \<Rightarrow> heap \<Rightarrow> string \<times> 'a \<Rightarrow> ((string \<times> 'b) \<times> heap) option" where
  "on_field f h e = (case f h (snd e) of None \<Rightarrow> None | Some (y, h1) \<Rightarrow> Some ((fst e, y), h1))"

text \<open>
  \<open>_.cloneDeep\<close> on the store: a scalar is returned as it is; an object or an array gets a
  new cell whose entries are the copies of its entries. The recursion follows the graph, so
  its depth is bounded by \<open>fuel\<close>; \<open>None\<close> is a graph deeper than that. (The table that
  lodash keeps to stop at cyclic values is never hit on a tree and is left out; the new cell
  is allocated once its entries are copied.)
\<close>

definition clone_array_props_h :: "hval list \<Rightarrow> (string \<times> hval) list \<Rightarrow> (string \<times> hval) list" where
  "clone_array_props_h vs ps =
     (if vs \<noteq> [] \<and> (case hd vs of VStr s \<Rightarrow> True | _ \<Rightarrow> False) \<and> ''index'' \<in> set (map fst ps)
      then [(''index'', lookup_h ps ''index''), (''input'', lookup_h ps ''input'')]
      else [])"

primrec cloneDeep_h :: "nat \<Rightarrow> heap \<Rightarrow> hval \<Rightarrow> (hval \<times> heap) option" where
  "cloneDeep_h 0 h v = None"
| "cloneDeep_h (Suc fuel) h v =
     (case v of
        VRef a \<Rightarrow>
          (case h ! a of
             CObj fs \<Rightarrow>
               (case map_heap (on_field (cloneDeep_h fuel)) h fs of
                  None \<Rightarrow> None
                | Some (fs', h1) \<Rightarrow> Some (VRef (length h1), h1 @ [CObj fs']))
           | CArr vs ps \<Rightarrow>
               (case map_heap (cloneDeep_h fuel) h vs of
                  None \<Rightarrow> None
                | Some (vs', h1) \<Rightarrow> Some (VRef (length h1), h1 @ [CArr vs' (clone_array_props_h vs ps)])))
      | scalar \<Rightarrow> Some (v, h))"

text \<open>The object graph that \<open>JSON.parse\<close> builds for a value, children before parents.\<close>

fun build :: "heap \<Rightarrow> jv \<Rightarrow> hval \<times> heap"
  and build_list :: "heap \<Rightarrow> jv list \<Rightarrow> hval list \<times> heap"
  and build_fields :: "heap \<Rightarrow> (string \<times> jv) list \<Rightarrow> (string \<times> hval) list \<times> heap"
where
  "build h JNull = (VNull, h)"
| "build h (JBool b) = (VBool b, h)"
| "build h (JNum n) = (VNum n, h)"
| "build h (JStr s) = (VStr s, h)"
| "build h JUndefined = (VUndefined, h)"
| "build h (JArr xs ps) =
     (case build_list h xs of (vs, h1) \<Rightarrow>
        (case build_fields h1 ps of (fs, h2) \<Rightarrow> (VRef (length h2), h2 @ [CArr vs fs])))"
| "build h (JObj kvs) =
     (case build_fields h kvs of (fs, h1) \<Rightarrow> (VRef (length h1), h1 @ [CObj fs]))"
| "build_list h [] = ([], h)"
| "build_list h (x # xs) =
     (case build h x of (v, h1) \<Rightarrow> (case build_list h1 xs of (vs, h2) \<Rightarrow> (v # vs, h2)))"
| "build_fields h [] = ([], h)"
| "build_fields h (e # kvs) =
     (case build h (snd e) of (v, h1) \<Rightarrow>
        (case build_fields h1 kvs of (fs, h2) \<Rightarrow> ((fst e, v) # fs, h2)))"

text \<open>The value that a store value stands for: the tree read off from the cells.\<close>

fun repr :: "heap \<Rightarrow> hval \<Rightarrow> jv \<Rightarrow> bool" where
  "repr h v JNull = (v = VNull)"
| "repr h v (JBool b) = (v = VBool b)"
| "repr h v (JNum n) = (v = VNum n)"
| "repr h v (JStr s) = (v = VStr s)"
| "repr h v JUndefined = (v = VUndefined)"
| "repr h v (JArr js qs) =
     (case v of
        VRef a \<Rightarrow> a < length h \<and>
          (case h ! a of
             CArr vs ps \<Rightarrow> list_all2 (repr h) vs js
                \<and> list_all2 (\<lambda>f q. fst f = fst q \<and> repr h (snd f) (snd q)) ps qs
           | CObj fs \<Rightarrow> False)
      | scalar \<Rightarrow> False)"
| "repr h v (JObj kvs) =
     (case v of
        VRef a \<Rightarrow> a < length h \<and>
          (case h ! a of
             CObj fs \<Rightarrow> list_all2 (\<lambda>f q. fst f = fst q \<and> repr h (snd f) (snd q)) fs kvs
           | CArr vs ps \<Rightarrow> False)
      | scalar \<Rightarrow> False)"

text \<open>The addresses a cell refers to, and the cells that can be reached from a value.\<close>

fun val_refs :: "hval \<Rightarrow> nat set" where
  "val_refs (VRef a) = {a}"
| "val_refs v = {}"

fun cell_refs :: "cell \<Rightarrow> nat set" where
  "cell_refs (CObj fs) = (\<Union>e \<in> set fs. val_refs (snd e))"
| "cell_refs (CArr vs ps) = (\<Union>v \<in> set vs. val_refs v) \<union> (\<Union>e \<in> set ps. val_refs (snd e))"


text \<open>From address \<open>n\<close> on, cells refer only to cells from \<open>n\<close> on.\<close>

definition closed_from :: "nat \<Rightarrow> heap \<Rightarrow> bool" where
  "closed_from n h = (\<forall>a. n \<le> a \<and> a < length h \<longrightarrow> cell_refs (h ! a) \<subseteq> {n..<length h})"

definition val_from :: "nat \<Rightarrow> heap \<Rightarrow> hval \<Rightarrow> bool" where
  "val_from n h v = (val_refs v \<subseteq> {n..<length h})"

record replace_result_h =
  original_h :: hval
  new_h :: hval
  path_h :: string
  data_h :: hval

text \<open>
  \<open>replace\<close> on the store, from the store \<open>h\<close> in which \<open>this.data\<close> lives to the store after
  the call, with the result or the message of the error that \<open>replace\<close> throws. \<open>None\<close> is
  a call that the document does not decide, or a clone that ran out of fuel.
\<close>

definition replace_heap ::
  "(string \<Rightarrow> jv option) \<Rightarrow> (string \<Rightarrow> bool) \<Rightarrow> (jv \<Rightarrow> string + nat) \<Rightarrow> nat \<Rightarrow> heap \<Rightarrow> hval
     \<Rightarrow> string \<Rightarrow> string \<Rightarrow> ((string + replace_result_h) \<times> heap) option" where
  "replace_heap JSON_parse proto toLength fuel h this_data pathText newValue =
     (let j = (case JSON_parse newValue of Some j \<Rightarrow> j | None \<Rightarrow> JStr newValue)
      in (case build h j of
            (parsedValue, h1) \<Rightarrow>
              (case cloneDeep_h fuel h1 this_data of
                 None \<Rightarrow> None
               | Some (newData, h2) \<Rightarrow>
                   (case lodash_set_h proto toLength h2 newData pathText parsedValue j of
                      None \<Rightarrow> None
                    | Some (Some message, h3) \<Rightarrow> Some (Inl (''Failed to replace value: '' @ message), h3)
                    | Some (None, h3) \<Rightarrow>
                        (case lodash_get_h proto h3 this_data pathText of
                           None \<Rightarrow> None
                         | Some found \<Rightarrow>
                             Some (Inr \<lparr> original_h = found,
                                        new_h = parsedValue,
                                        path_h = pathText,
                                        data_h = newData \<rparr>, h3))))))"

text \<open>The store has only grown, and its new cells refer to new cells only.\<close>

definition grows :: "heap \<Rightarrow> heap \<Rightarrow> bool" where
  "grows h h' = ((\<exists>ext. h' = h @ ext) \<and> closed_from (length h) h')"


section \<open>Properties of evaluate\<close>

text \<open>
  C7. When the accessor text begins with neither \<open>.\<close> nor \<open>[\<close>, \<open>evaluate\<close> runs the same
  script as for the text with a dot put in front, so both calls give the same outcome,
  whatever the engine does with the script.
\<close>

theorem evaluate_leading_separator:
  assumes "\<not> startsWith accessor ''.''" and "\<not> startsWith accessor ''[''"
  shows "evaluate_code accessor = evaluate_code (''.'' @ accessor)
         \<and> evaluate runInContext doc accessor = evaluate runInContext doc (''.'' @ accessor)"
  using assms by (simp add: evaluate_def evaluate_code_def startsWith_def)

theorem evaluate_leading_separator_witness:
  "evaluate_code ''users[0].name'' = ''result = data.users[0].name''
   \<and> evaluate member_engine example_doc ''users[0].name''
       = evaluate member_engine example_doc ''.users[0].name''
   \<and> evaluate member_engine example_doc ''users[0].name'' = Some (Inr (JStr ''Ann''), example_doc)"
proof -
  have a: "\<not> startsWith ''users[0].name'' ''.''" by (simp add: startsWith_def)
  have b: "\<not> startsWith ''users[0].name'' ''[''" by (simp add: startsWith_def)
  have c: "evaluate member_engine example_doc ''users[0].name'' = Some (Inr (JStr ''Ann''), example_doc)"
    by code_simp
  show ?thesis
    using evaluate_leading_separator [OF a b, of member_engine example_doc] c
    by (simp add: evaluate_code_def startsWith_def)
qed

text \<open>
  C4. When the run of the script throws an error object, \<open>evaluate\<close> fails with an error whose
  message is \<open>Failed to evaluate accessor: \<close> followed by the message of what was thrown; when
  the run completes, \<open>evaluate\<close> returns the value left in \<open>result\<close> as it is.
\<close>

theorem evaluate_wraps_faults:
  "(runInContext (evaluate_code accessor) doc = Some (Inl (ErrorObject m), doc')
      \<longrightarrow> evaluate runInContext doc accessor
          = Some (Inl (EvaluationError (''Failed to evaluate accessor: '' @ m)), doc'))
   \<and> (runInContext (evaluate_code accessor) doc = Some (Inr v, doc')
      \<longrightarrow> evaluate runInContext doc accessor = Some (Inr v, doc'))"
  by (simp add: evaluate_def)

theorem evaluate_wraps_faults_witness:
  "evaluate member_engine example_doc ''users[0].age.x''
     = Some (Inl (EvaluationError
          (''Failed to evaluate accessor: '' @ ''Cannot read properties of null (reading ''
            @ [CHR 0x27] @ ''x'' @ [CHR 0x27] @ '')'')), example_doc)
   \<and> evaluate member_engine example_doc ''a.b'' = Some (Inr (JNum 1), example_doc)"
proof -
  have a: "member_engine (evaluate_code ''users[0].age.x'') example_doc
             = Some (Inl (ErrorObject (''Cannot read properties of null (reading ''
                 @ [CHR 0x27] @ ''x'' @ [CHR 0x27] @ '')'')), example_doc)"
    by code_simp
  have b: "member_engine (evaluate_code ''a.b'') example_doc = Some (Inr (JNum 1), example_doc)"
    by code_simp
  show ?thesis
    using evaluate_wraps_faults [of member_engine "''users[0].age.x''" example_doc _ example_doc] a
          evaluate_wraps_faults [of member_engine "''a.b''" example_doc _ example_doc "JNum 1"] b
    by simp
qed

text \<open>
  C2. \<open>evaluate\<close> binds \<open>data\<close> to the processor's own document, neither copied nor frozen,
  so a script can write into it: the accessor \<open>a.b=5\<close>, run as \<open>result = data.a.b=5\<close>,
  returns 5 and leaves the root with \<open>a.b\<close> changed from 1 to 5.
\<close>

theorem evaluate_assignment_mutates_root:
  "evaluate member_engine example_doc ''a.b=5''
     = Some (Inr (JNum 5),
             JObj [(''users'', JArr [JObj [(''name'', JStr ''Ann''), (''age'', JNull)]] []),
                   (''a'', JObj [(''b'', JNum 5)])])
   \<and> evaluate_code ''a.b=5'' = ''result = data.a.b=5''
   \<and> example_doc = JObj [(''users'', JArr [JObj [(''name'', JStr ''Ann''), (''age'', JNull)]] []),
                         (''a'', JObj [(''b'', JNum 1)])]"
  by code_simp

section \<open>Properties of replace\<close>

text \<open>
  C5. When \<open>replace\<close> returns, its \<open>new\<close> field is the raw value parsed as JSON when it
  parses, and the raw value itself, as a string, when it does not.
\<close>

theorem replace_coerces_value:
  "replace JSON_parse proto toLength doc p v = Some (Inr r) \<Longrightarrow>
     (\<forall>j. JSON_parse v = Some j \<longrightarrow> new r = j) \<and> (JSON_parse v = None \<longrightarrow> new r = JStr v)"
  by (auto simp: replace_def Let_def split: option.splits sum.splits)

theorem replace_coerces_value_witness:
  "(\<exists>r. replace parse_examples object_members length_examples example_doc ''a.b'' ''42'' = Some (Inr r)
        \<and> new r = JNum 42)
   \<and> (\<exists>r. replace parse_examples object_members length_examples example_doc ''a.b'' ''hello'' = Some (Inr r)
        \<and> new r = JStr ''hello'')"
proof -
  have a: "parse_examples ''42'' = Some (JNum 42)" by (simp add: parse_examples_def)
  have b: "parse_examples ''hello'' = None" by (simp add: parse_examples_def)
  have "replace parse_examples object_members length_examples example_doc ''a.b'' ''42''
          = Some (Inr \<lparr> original = JNum 1, new = JNum 42, path = ''a.b'',
                        data = JObj [(''users'', JArr [JObj [(''name'', JStr ''Ann''), (''age'', JNull)]] []),
                                     (''a'', JObj [(''b'', JNum 42)])] \<rparr>)"
    by code_simp
  then obtain r1 where r1: "replace parse_examples object_members length_examples example_doc ''a.b'' ''42''
          = Some (Inr r1)" by blast
  have "replace parse_examples object_members length_examples example_doc ''a.b'' ''hello''
          = Some (Inr \<lparr> original = JNum 1, new = JStr ''hello'', path = ''a.b'',
                        data = JObj [(''users'', JArr [JObj [(''name'', JStr ''Ann''), (''age'', JNull)]] []),
                                     (''a'', JObj [(''b'', JStr ''hello'')])] \<rparr>)"
    by code_simp
  then obtain r2 where r2: "replace parse_examples object_members length_examples example_doc ''a.b'' ''hello''
          = Some (Inr r2)" by blast
  from replace_coerces_value [OF r1] a have "new r1 = JNum 42" by blast
  moreover from replace_coerces_value [OF r2] b have "new r2 = JStr ''hello''" by blast
  ultimately show ?thesis using r1 r2 by blast
qed

section \<open>Properties of search and listAllNodes\<close>

lemma visited_from_leaf: "\<not> isObject v \<Longrightarrow> visited_from v p = []"
  by (subst visited_from.simps) simp

lemma traverse_nodes_visited:
  "traverse_nodes obj p = map entry_node (visited_from obj p)"
proof (induction obj p rule: traverse_nodes.induct)
  case (1 obj p)
  show ?case
  proof (cases "isObject obj")
    case False
    then show ?thesis by (subst traverse_nodes.simps, subst visited_from.simps) simp
  next
    case True
    have "\<And>k v. (k, v) \<in> set (forEach_entries obj) \<Longrightarrow>
            (if isObject v then traverse_nodes v (currentPath p k) else [])
            = map entry_node (visited_from v (currentPath p k))"
      using 1 True by (auto simp: visited_from_leaf)
    then show ?thesis
      using True
      by (subst traverse_nodes.simps, subst visited_from.simps)
         (auto simp: map_concat entry_node_def intro!: arg_cong [where f = concat])
  qed
qed

lemma concat_map_concat:
  "concat (map g (concat (map h es))) = concat (map (\<lambda>e. concat (map g (h e))) es)"
  by (induction es) auto

lemma traverse_search_visited:
  "traverse_search lower lq obj p = concat (map (entry_matches lower lq) (visited_from obj p))"
proof (induction lower lq obj p rule: traverse_search.induct)
  case (1 lower lq obj p)
  show ?case
  proof (cases "isObject obj")
    case False
    then show ?thesis by (subst traverse_search.simps, subst visited_from.simps) simp
  next
    case True
    have ih: "\<And>k v. (k, v) \<in> set (forEach_entries obj) \<Longrightarrow>
            traverse_search lower lq v (currentPath p k)
            = concat (map (entry_matches lower lq) (visited_from v (currentPath p k)))"
      using 1 True by auto
    show ?thesis
      using True
      apply (subst traverse_search.simps, subst visited_from.simps)
      apply (simp add: concat_map_concat)
      apply (rule arg_cong [where f = concat])
      apply (rule map_cong [OF refl])
      apply (auto simp: ih entry_matches_def)
      done
  qed
qed

lemma str_includes_sublist: "str_includes s q = sublist q s"
  by (induction s) (auto simp: sublist_Cons_right)

lemma str_includes_Nil: "str_includes s []"
  by (simp add: str_includes_sublist)

text \<open>
  Over the entries that the walk visits, \<open>search\<close> emits, in order, a key match for an entry
  exactly when the lower-cased query occurs in the lower-cased key name, then a value match
  exactly when the value is a string in which the lower-cased query occurs; both carry the
  path, key and value of the entry.
\<close>

lemma search_visited:
  "search lower doc q = concat (map (\<lambda>(p, k, v).
       (if sublist (lower q) (lower (key_str k))
        then [\<lparr> match_path = p, match_key = k, match_value = v, matchType = MKey \<rparr>] else [])
       @ (case v of
            JStr s \<Rightarrow> (if sublist (lower q) (lower s)
                       then [\<lparr> match_path = p, match_key = k, match_value = v, matchType = MValue \<rparr>] else [])
          | _ \<Rightarrow> []))
     (visited doc))"
proof -
  have e: "entry_matches lower (lower q) = (\<lambda>(p, k, v).
       (if sublist (lower q) (lower (key_str k))
        then [\<lparr> match_path = p, match_key = k, match_value = v, matchType = MKey \<rparr>] else [])
       @ (case v of
            JStr s \<Rightarrow> (if sublist (lower q) (lower s)
                       then [\<lparr> match_path = p, match_key = k, match_value = v, matchType = MValue \<rparr>] else [])
          | _ \<Rightarrow> []))"
    by (auto simp: entry_matches_def str_includes_sublist fun_eq_iff split: jv.splits)
  have "search lower doc q = concat (map (entry_matches lower (lower q)) (visited doc))"
    by (simp add: search_def visited_def traverse_search_visited)
  then show ?thesis by (simp only: e)
qed

text \<open>
  In a document without array-like objects the walk visits every entry, so there \<open>search\<close>
  tests every key and every string value.
\<close>

lemma visited_all_entries:
  "plain_objects obj \<Longrightarrow> visited_from obj p = all_entries obj p"
proof (induction obj p rule: visited_from.induct)
  case (1 obj p)
  show ?case
  proof (cases obj)
    case (JObj kvs)
    with 1(2) have na: "\<not> isArrayLike (JObj kvs)" by simp
    have ih: "\<And>k v. (k, v) \<in> set kvs \<Longrightarrow>
                visited_from v (currentPath p (KStr k)) = all_entries v (currentPath p (KStr k))"
    proof -
      fix k v assume m: "(k, v) \<in> set kvs"
      then have e: "(KStr k, v) \<in> set (forEach_entries obj)" using JObj na by force
      have "plain_objects v" using 1(2) JObj m by auto
      with 1(1) [OF _ e refl] JObj show
        "visited_from v (currentPath p (KStr k)) = all_entries v (currentPath p (KStr k))" by simp
    qed
    show ?thesis
      using JObj na
      apply (subst visited_from.simps)
      apply (simp add: all_entries.simps(1) comp_def del: isArrayLike.simps)
      apply (rule arg_cong [where f = concat])
      apply (rule map_cong [OF refl])
      apply (auto simp: ih)
      done
  next
    case (JArr xs ps)
    have ih: "\<And>i. i < length xs \<Longrightarrow>
                visited_from (xs ! i) (currentPath p (KNum i)) = all_entries (xs ! i) (currentPath p (KNum i))"
    proof -
      fix i assume i: "i < length xs"
      then have e: "(KNum i, xs ! i) \<in> set (forEach_entries obj)" using JArr by force
      have "plain_objects (xs ! i)" using 1(2) JArr i by simp
      with 1(1) [OF _ e refl] JArr show
        "visited_from (xs ! i) (currentPath p (KNum i)) = all_entries (xs ! i) (currentPath p (KNum i))" by simp
    qed
    show ?thesis
      using JArr
      apply (subst visited_from.simps)
      apply (simp add: all_entries.simps(2) comp_def)
      apply (rule arg_cong [where f = concat])
      apply (rule map_cong [OF refl])
      apply (auto simp: ih)
      done
  qed (simp_all add: visited_from_leaf)
qed

lemma search_all_entries:
  assumes "plain_objects doc"
  shows "search lower doc q = concat (map (\<lambda>(p, k, v).
       (if sublist (lower q) (lower (key_str k))
        then [\<lparr> match_path = p, match_key = k, match_value = v, matchType = MKey \<rparr>] else [])
       @ (case v of
            JStr s \<Rightarrow> (if sublist (lower q) (lower s)
                       then [\<lparr> match_path = p, match_key = k, match_value = v, matchType = MValue \<rparr>] else [])
          | _ \<Rightarrow> []))
     (all_entries doc (PStr [])))"
  using search_visited [of lower doc q] visited_all_entries [OF assms, of "PStr []"]
  by (simp add: visited_def)

text \<open>
  C6. The walk does not visit every key. On the document \<open>{"length": 1, "name": "x"}\<close>
  \<open>_.forEach\<close> takes the object for array-like and hands over index 0 alone, with the value
  \<open>undefined\<close>. So the query \<open>name\<close> finds nothing, although \<open>name\<close> is a key, and the empty
  query gives one key match, for the index 0, and matches neither the keys \<open>length\<close> and
  \<open>name\<close> nor the string \<open>x\<close>.
\<close>

theorem search_array_like_object:
  "search ascii_lower (JObj [(''length'', JNum 1), (''name'', JStr ''x'')]) ''name'' = []
   \<and> search ascii_lower (JObj [(''length'', JNum 1), (''name'', JStr ''x'')]) []
       = [\<lparr> match_path = PNum 0, match_key = KNum 0, match_value = JUndefined, matchType = MKey \<rparr>]
   \<and> visited (JObj [(''length'', JNum 1), (''name'', JStr ''x'')]) = [(PNum 0, KNum 0, JUndefined)]"
  by code_simp

text \<open>
  C8. On the document \<open>{"a": null}\<close> the node of \<open>a\<close> is tagged \<open>object\<close>, the \<open>typeof\<close> of
  \<open>null\<close>, although it is listed as a scalar with its value \<open>null\<close>.
\<close>

theorem listAllNodes_null_tag:
  "listAllNodes (JObj [(''a'', JNull)])
     = [\<lparr> node_path = PStr ''a'', node_type = ''object'', node_value = JNull \<rparr>]"
  by code_simp

section \<open>Emitted paths\<close>

lemma digit_char [simp]: "n < 10 \<Longrightarrow> is_digit (char_of (48 + (n::nat)))"
  by (simp add: is_digit_def)

lemma char_of_48: "char_of (48::nat) = CHR ''0''"
  by code_simp

lemma show_nat_digits: "list_all is_digit (show_nat n)"
  by (induction n rule: show_nat.induct) (subst show_nat.simps, auto)

lemma show_nat_nonempty: "show_nat n \<noteq> []"
  by (subst show_nat.simps) simp

lemma digits_nat_snoc: "digits_nat (s @ [c]) = 10 * digits_nat s + (of_char c - 48)"
  by (simp add: digits_nat_def)

lemma digits_nat_show_nat: "digits_nat (show_nat n) = n"
proof (induction n rule: show_nat.induct)
  case (1 n)
  show ?case
  proof (cases "n < 10")
    case True
    then show ?thesis by (subst show_nat.simps) (simp add: digits_nat_def)
  next
    case False
    then have "digits_nat (show_nat (n div 10)) = n div 10" using 1 by simp
    with False show ?thesis
      by (subst show_nat.simps) (simp add: digits_nat_snoc)
  qed
qed

lemma show_nat_zero_head: "hd (show_nat n) = CHR ''0'' \<Longrightarrow> n = 0"
proof (induction n rule: show_nat.induct)
  case (1 n)
  show ?case
  proof (cases "n < 10")
    case True
    with 1(2) have "char_of (48 + n) = CHR ''0''" by (subst (asm) show_nat.simps) simp
    then have "of_char (char_of (48 + n) :: char) = (of_char (CHR ''0'') :: nat)" by simp
    with True show ?thesis by simp
  next
    case False
    with 1(2) have "hd (show_nat (n div 10)) = CHR ''0''"
      by (subst (asm) show_nat.simps) (simp add: show_nat_nonempty)
    with 1(1) False have "n div 10 = 0" by simp
    with False show ?thesis by simp
  qed
qed

lemma isUint_show_nat: "isUint (show_nat n)"
proof -
  have "hd (show_nat n) = CHR ''0'' \<longrightarrow> show_nat n = ''0''"
  proof
    assume "hd (show_nat n) = CHR ''0''"
    then have "n = 0" by (rule show_nat_zero_head)
    then show "show_nat n = ''0''" by (subst show_nat.simps) (simp add: char_of_48)
  qed
  then show ?thesis by (simp add: isUint_def show_nat_nonempty show_nat_digits)
qed

lemma is_digit_path_char: "is_digit c \<Longrightarrow> path_char c"
  by (auto simp: is_digit_def path_char_def)

lemma safe_key_show_nat: "safe_key (show_nat n)"
  using show_nat_digits [of n] 
  by (auto simp: safe_key_def show_nat_nonempty list_all_iff is_digit_path_char)

lemma array_index_show_nat: "int n \<le> MAX_ARRAY_INDEX \<Longrightarrow> array_index (show_nat n) = Some n"
  by (simp add: array_index_def isUint_show_nat digits_nat_show_nat)

lemma takeWhile_safe: "list_all path_char k \<Longrightarrow> takeWhile path_char (k @ CHR ''.'' # r) = k"
  by (induction k) (auto simp: path_char_def)

lemma dropWhile_safe: "list_all path_char k \<Longrightarrow> dropWhile path_char (k @ CHR ''.'' # r) = CHR ''.'' # r"
  by (induction k) (auto simp: path_char_def)

lemma takeWhile_all: "list_all path_char k \<Longrightarrow> takeWhile path_char k = k"
  by (induction k) auto

lemma dropWhile_all: "list_all path_char k \<Longrightarrow> dropWhile path_char k = []"
  by (induction k) auto

lemma scan_key_rest:
  assumes "safe_key k"
  shows "scan (k @ concat (map (\<lambda>k'. CHR ''.'' # k') r)) = k # scan (concat (map (\<lambda>k'. CHR ''.'' # k') r))"
proof -
  from assms obtain c cs where k: "k = c # cs" "path_char c" "list_all path_char cs"
    by (cases k) (auto simp: safe_key_def)
  show ?thesis
  proof (cases r)
    case Nil
    with k show ?thesis by (simp add: scan.simps(2) takeWhile_all dropWhile_all)
  next
    case (Cons k2 r2)
    have "takeWhile path_char (c # cs @ CHR ''.'' # k2 @ concat (map (\<lambda>k'. CHR ''.'' # k') r2)) = c # cs"
      using takeWhile_safe [of "c # cs"] k by simp
    moreover have "dropWhile path_char (cs @ CHR ''.'' # k2 @ concat (map (\<lambda>k'. CHR ''.'' # k') r2))
        = CHR ''.'' # k2 @ concat (map (\<lambda>k'. CHR ''.'' # k') r2)"
      using dropWhile_safe [of cs] k by simp
    ultimately show ?thesis using k Cons by (simp add: scan.simps(2))
  qed
qed

lemma scan_dot_key:
  assumes "safe_key k"
  shows "scan (CHR ''.'' # k @ t) = scan (k @ t)"
proof -
  from assms obtain c cs where k: "k = c # cs" "path_char c" by (cases k) (auto simp: safe_key_def)
  then have "\<not> empty_key_here (CHR ''.'' # k @ t)"
    by (auto simp: empty_key_here_def after_sep_def path_char_def)
  then show ?thesis by (simp add: scan.simps(2) path_char_def)
qed

lemma scan_joined:
  "safe_key k \<Longrightarrow> list_all safe_key r \<Longrightarrow>
   scan (k @ concat (map (\<lambda>k'. CHR ''.'' # k') r)) = k # r"
proof (induction r arbitrary: k)
  case Nil
  then show ?case using scan_key_rest [of k "[]"] by simp
next
  case (Cons k2 r)
  have "scan (k @ concat (map (\<lambda>k'. CHR ''.'' # k') (k2 # r)))
        = k # scan (concat (map (\<lambda>k'. CHR ''.'' # k') (k2 # r)))"
    using Cons.prems by (intro scan_key_rest) simp
  also have "scan (concat (map (\<lambda>k'. CHR ''.'' # k') (k2 # r)))
        = scan (k2 @ concat (map (\<lambda>k'. CHR ''.'' # k') r))"
    using Cons.prems scan_dot_key [of k2] by simp
  also have "\<dots> = k2 # r" using Cons by simp
  finally show ?case .
qed

lemma safe_not_deep: "list_all path_char s \<Longrightarrow> \<not> isDeepProp s"
proof -
  assume a: "list_all path_char s"
  then have "\<not> has_group s" by (induction s) (auto simp: path_char_def)
  moreover from a have "CHR ''.'' \<notin> set s" by (auto simp: list_all_iff path_char_def)
  ultimately show ?thesis by (simp add: isDeepProp_def)
qed

lemma dot_not_word: "\<not> word_char CHR ''.''"
  by (simp add: word_char_def is_digit_def)

lemma dot_not_plain: "CHR ''.'' \<in> set s \<Longrightarrow> \<not> isPlainProp s"
  using dot_not_word by (auto simp: isPlainProp_def list_all_iff)

lemma castPath_joined:
  assumes "safe_key k" and "list_all safe_key r"
    and "\<forall>k' \<in> set (map fst kvs). safe_key k'"
  shows "castPath (PStr (join_keys (k # r))) (JObj kvs) = k # r"
proof (cases r)
  case Nil
  with assms(1) show ?thesis
    by (simp add: join_keys_def isKey_def safe_not_deep safe_key_def)
next
  case (Cons k2 r2)
  have dot: "CHR ''.'' \<in> set (join_keys (k # r))" using Cons by (simp add: join_keys_def)
  have "\<not> safe_key (join_keys (k # r))"
    using dot by (auto simp: safe_key_def list_all_iff path_char_def)
  with assms(3) have "\<not> has_own (JObj kvs) (join_keys (k # r))" by auto
  with dot have "\<not> isKey (join_keys (k # r)) (JObj kvs)"
    by (simp add: isKey_def dot_not_plain isDeepProp_def)
  moreover have "hd (join_keys (k # r)) \<noteq> CHR ''.''"
    using assms(1) by (cases k) (auto simp: join_keys_def safe_key_def path_char_def)
  ultimately show ?thesis
    using scan_joined [OF assms(1,2)] by (simp add: stringToPath_def join_keys_def)
qed

lemma lookup_plain: "\<forall>e \<in> set kvs. plain_keys (snd e) \<Longrightarrow> plain_keys (lookup kvs k)"
  by (auto simp: lookup_def split: option.splits dest!: map_of_SomeD)

lemma index_not_length: "array_index k = Some i \<Longrightarrow> k \<noteq> ''length''"
  by (auto simp: array_index_def isUint_def is_digit_def)

lemma show_nat_not_inherited: "\<not> inherited proto (show_nat n)"
  using show_nat_digits [of n] show_nat_nonempty [of n]
  by (cases "show_nat n") (auto simp: inherited_def member_name_def)

lemma lookup_absent: "k \<notin> set (map fst kvs) \<Longrightarrow> lookup kvs k = JUndefined"
proof -
  assume "k \<notin> set (map fst kvs)"
  then have "map_of kvs k = None" by (simp add: map_of_eq_None_iff)
  then show ?thesis by (simp add: lookup_def)
qed

lemma entries_resolve:
  assumes "plain_keys obj" and "(k, v) \<in> set (forEach_entries obj)"
  shows "get_prop proto obj (key_str k) = Some v \<and> safe_key (key_str k) \<and> plain_keys v"
proof (cases obj)
  case (JArr xs ps)
  with assms obtain i where i: "i < length xs" "k = KNum i" "v = xs ! i" by auto
  with assms(1) JArr have "int i \<le> MAX_ARRAY_INDEX"
    by (simp add: MAX_ARRAY_INDEX_def MAX_ARRAY_LENGTH_def)
  then have a: "array_index (show_nat i) = Some i" by (rule array_index_show_nat)
  from index_not_length [OF a] have "show_nat i \<noteq> ''length''" .
  with a i JArr assms(1) show ?thesis by (simp add: safe_key_show_nat get_prop_def)
next
  case (JObj kvs)
  show ?thesis
  proof (cases "isArrayLike (JObj kvs)")
    case True
    with assms JObj obtain i where i: "k = KNum i" "v = lookup kvs (show_nat i)" by auto
    have "get_prop proto (JObj kvs) (show_nat i) = Some (lookup kvs (show_nat i))"
      by (simp add: get_prop_def show_nat_not_inherited lookup_absent)
    with i JObj assms(1) show ?thesis by (simp add: safe_key_show_nat lookup_plain)
  next
    case False
    with assms JObj obtain s where s: "k = KStr s" "(s, v) \<in> set kvs" by auto
    with assms(1) JObj have "map_of kvs s = Some v" by simp
    moreover from s have "s \<in> set (map fst kvs)" by force
    ultimately show ?thesis using s assms(1) JObj by (auto simp: lookup_def get_prop_def)
  qed
qed (use assms in auto)

lemma visited_from_resolves:
  "plain_keys obj \<Longrightarrow> truthy pa \<Longrightarrow> (p, k, v) \<in> set (visited_from obj pa) \<Longrightarrow>
   \<exists>ks. ks \<noteq> [] \<and> list_all safe_key ks \<and> last ks = key_str k
        \<and> p = PStr (pth_str pa @ concat (map (\<lambda>k'. CHR ''.'' # k') ks))
        \<and> get_keys proto obj ks = Some v"
proof (induction obj pa arbitrary: p k v rule: visited_from.induct)
  case (1 obj pa)
  from 1(4) have obj: "isObject obj"
    by (subst (asm) visited_from.simps) (auto split: if_splits)
  with 1(4) obtain k1 v1 where e: "(k1, v1) \<in> set (forEach_entries obj)"
    and pk: "(p, k, v) = (currentPath pa k1, k1, v1) \<or> (p, k, v) \<in> set (visited_from v1 (currentPath pa k1))"
    by (subst (asm) visited_from.simps) auto
  from entries_resolve [OF 1(2) e]
  have r: "get_prop proto obj (key_str k1) = Some v1" "safe_key (key_str k1)" "plain_keys v1" by auto
  have cp: "currentPath pa k1 = PStr (pth_str pa @ CHR ''.'' # key_str k1)"
    using 1(3) by (simp add: currentPath_def)
  have nn: "\<not> nullish obj" using obj by (cases obj) (auto simp: nullish_def)
  from pk show ?case
  proof
    assume "(p, k, v) = (currentPath pa k1, k1, v1)"
    with cp r nn show ?thesis by (intro exI [of _ "[key_str k1]"]) simp
  next
    assume a: "(p, k, v) \<in> set (visited_from v1 (currentPath pa k1))"
    have "truthy (currentPath pa k1)" by (simp add: cp)
    from 1(1) [OF obj e refl r(3) this a]
    obtain ks where ks: "ks \<noteq> []" "list_all safe_key ks" "last ks = key_str k"
      "p = PStr (pth_str (currentPath pa k1) @ concat (map (\<lambda>k'. CHR ''.'' # k') ks))"
      "get_keys proto v1 ks = Some v" by blast
    with cp r nn show ?thesis by (intro exI [of _ "key_str k1 # ks"]) simp
  qed
qed

lemma visited_resolves:
  assumes "plain_keys doc" and "isObject doc" and "\<not> isArrayLike doc"
    and "(p, k, v) \<in> set (visited doc)"
  shows "\<exists>ks. ks \<noteq> [] \<and> last ks = key_str k \<and> p = PStr (join_keys ks) \<and> p \<noteq> PStr []
              \<and> castPath p doc = ks \<and> lodash_get proto doc p = Some v"
proof -
  from assms(2,3) obtain kvs where doc: "doc = JObj kvs" by (cases doc) auto
  from assms(4) doc assms(3) obtain s v1 where e: "(s, v1) \<in> set kvs"
    and pk: "(p, k, v) = (PStr s, KStr s, v1) \<or> (p, k, v) \<in> set (visited_from v1 (PStr s))"
    unfolding visited_def by (subst (asm) visited_from.simps) (auto simp: currentPath_def)
  from e have e': "(KStr s, v1) \<in> set (forEach_entries doc)" using doc assms(3) by force
  from entries_resolve [OF assms(1) e']
  have r: "get_prop proto doc s = Some v1" "safe_key s" "plain_keys v1" by auto
  have keys: "\<forall>k' \<in> set (map fst kvs). safe_key k'" using assms(1) doc by auto
  have nn: "\<not> nullish doc" using doc by (simp add: nullish_def)
  have "\<exists>r. list_all safe_key r \<and> last (s # r) = key_str k \<and> p = PStr (join_keys (s # r))
            \<and> get_keys proto doc (s # r) = Some v"
    using pk
  proof
    assume "(p, k, v) = (PStr s, KStr s, v1)"
    with r nn show ?thesis by (intro exI [of _ "[]"]) (simp add: join_keys_def)
  next
    assume a: "(p, k, v) \<in> set (visited_from v1 (PStr s))"
    have "truthy (PStr s)" using r(2) by (simp add: safe_key_def)
    from visited_from_resolves [OF r(3) this a]
    obtain ks where ks: "ks \<noteq> []" "list_all safe_key ks" "last ks = key_str k"
      "p = PStr (pth_str (PStr s) @ concat (map (\<lambda>k'. CHR ''.'' # k') ks))" "get_keys proto v1 ks = Some v" by blast
    with r nn show ?thesis by (intro exI [of _ ks]) (simp add: join_keys_def)
  qed
  then obtain r' where r': "list_all safe_key r'" "last (s # r') = key_str k"
    "p = PStr (join_keys (s # r'))" "get_keys proto doc (s # r') = Some v" by blast
  have cp: "castPath p doc = s # r'"
    using castPath_joined [OF r(2) r'(1) keys] r'(3) doc by simp
  with r'(4) nn have "lodash_get proto doc p = Some v" by (simp add: lodash_get_def baseGet_def)
  moreover have "p \<noteq> PStr []" using r'(3) r(2) by (simp add: join_keys_def safe_key_def)
  ultimately show ?thesis using r' cp by (intro exI [of _ "s # r'"]) simp
qed

text \<open>
  C10 (amended). Let the root be an object without a numeric \<open>length\<close>, and let every key
  in the document be non-empty and free of \<open>.\<close>, \<open>[\<close>, \<open>]\<close>. Then every path that \<open>search\<close> or
  \<open>listAllNodes\<close> emits is a non-empty chain of keys and indices joined with dots, ending in
  the entry's own key; \<open>_.get\<close> splits it into that chain and reads the entry's value from the
  root; and no emitted path is empty, so the root is not among the entries.
\<close>

theorem emitted_paths_resolve:
  assumes "plain_keys doc" and "isObject doc" and "\<not> isArrayLike doc"
  shows "(\<forall>m \<in> set (search lower doc q). \<exists>ks. ks \<noteq> [] \<and> last ks = key_str (match_key m)
            \<and> match_path m = PStr (join_keys ks) \<and> match_path m \<noteq> PStr []
            \<and> castPath (match_path m) doc = ks
            \<and> lodash_get proto doc (match_path m) = Some (match_value m))
       \<and> (\<forall>n \<in> set (listAllNodes doc). \<exists>ks k v. ks \<noteq> [] \<and> last ks = key_str k
            \<and> node_path n = PStr (join_keys ks) \<and> node_path n \<noteq> PStr []
            \<and> castPath (node_path n) doc = ks
            \<and> lodash_get proto doc (node_path n) = Some v \<and> n = entry_node (node_path n, k, v))"
proof (intro conjI ballI)
  fix m assume "m \<in> set (search lower doc q)"
  then obtain e where e: "e \<in> set (visited doc)" "m \<in> set (entry_matches lower (lower q) e)"
    by (auto simp: search_def visited_def traverse_search_visited)
  obtain p k v where pkv: "e = (p, k, v)" by (cases e)
  with e(2) have m: "match_path m = p" "match_key m = k" "match_value m = v"
    by (auto simp: entry_matches_def split: if_splits)
  from visited_resolves [OF assms, of p k v proto] e(1) pkv m
  show "\<exists>ks. ks \<noteq> [] \<and> last ks = key_str (match_key m)
            \<and> match_path m = PStr (join_keys ks) \<and> match_path m \<noteq> PStr []
            \<and> castPath (match_path m) doc = ks
            \<and> lodash_get proto doc (match_path m) = Some (match_value m)" by simp
next
  fix n assume "n \<in> set (listAllNodes doc)"
  then obtain e where e: "e \<in> set (visited doc)" "n = entry_node e"
    by (auto simp: listAllNodes_def visited_def traverse_nodes_visited)
  obtain p k v where pkv: "e = (p, k, v)" by (cases e)
  with e(2) have n: "node_path n = p" by (simp add: entry_node_def)
  from visited_resolves [OF assms, of p k v proto] e(1) pkv
  obtain ks where "ks \<noteq> []" "last ks = key_str k" "p = PStr (join_keys ks)" "p \<noteq> PStr []"
    "castPath p doc = ks" "lodash_get proto doc p = Some v" by blast
  with n e(2) pkv
  show "\<exists>ks k v. ks \<noteq> [] \<and> last ks = key_str k
            \<and> node_path n = PStr (join_keys ks) \<and> node_path n \<noteq> PStr []
            \<and> castPath (node_path n) doc = ks
            \<and> lodash_get proto doc (node_path n) = Some v \<and> n = entry_node (node_path n, k, v)"
    by (intro exI [of _ ks] exI [of _ k] exI [of _ v]) simp
qed

theorem emitted_paths_resolve_witness:
  "plain_keys example_doc \<and> isObject example_doc \<and> \<not> isArrayLike example_doc
   \<and> \<lparr> match_path = PStr ''users.0.name'', match_key = KStr ''name'', match_value = JStr ''Ann'', matchType = MValue \<rparr>
       \<in> set (search ascii_lower example_doc ''ann'')
   \<and> castPath (PStr ''users.0.name'') example_doc = [''users'', ''0'', ''name'']
   \<and> lodash_get object_members example_doc (PStr ''users.0.name'') = Some (JStr ''Ann'')"
proof -
  have a: "plain_keys example_doc" by code_simp
  have b: "isObject example_doc" by code_simp
  have c: "\<not> isArrayLike example_doc" by code_simp
  have d: "\<lparr> match_path = PStr ''users.0.name'', match_key = KStr ''name'', match_value = JStr ''Ann'', matchType = MValue \<rparr>
       \<in> set (search ascii_lower example_doc ''ann'')" by code_simp
  have e: "castPath (PStr ''users.0.name'') example_doc = [''users'', ''0'', ''name'']" by code_simp
  from emitted_paths_resolve [OF a b c, of ascii_lower "''ann''" object_members] d
  have "lodash_get object_members example_doc (PStr ''users.0.name'') = Some (JStr ''Ann'')" by fastforce
  with a b c d e show ?thesis by simp
qed

text \<open>
  C10 as stated fails for a key that contains a dot: in \<open>{"x": {"a.b": 1}}\<close> the entry
  \<open>a.b\<close> is emitted with the path \<open>x.a.b\<close>, which \<open>_.get\<close> reads as three keys and does
  not find.
\<close>

theorem emitted_path_dotted_key_unresolved:
  "\<lparr> node_path = PStr ''x.a.b'', node_type = ''number'', node_value = JNum 1 \<rparr> \<in> set (listAllNodes dotted_doc)
   \<and> \<lparr> match_path = PStr ''x.a.b'', match_key = KStr ''a.b'', match_value = JNum 1, matchType = MKey \<rparr>
       \<in> set (search ascii_lower dotted_doc ''b'')
   \<and> lodash_get object_members dotted_doc (PStr ''x.a.b'') = Some JUndefined"
  by code_simp

text \<open>
  Below the first element of a root array the path loses its prefix: the test
  \<open>path ? ... : key\<close> takes the number 0 for an absent path.
\<close>

lemma listAllNodes_root_array:
  "listAllNodes (JArr [JObj [(''a'', JNum 1)]] [])
     = [\<lparr> node_path = PNum 0, node_type = ''object'', node_value = JStr ''Object[1]'' \<rparr>,
        \<lparr> node_path = PStr ''a'', node_type = ''number'', node_value = JNum 1 \<rparr>]"
  by code_simp

section \<open>What \<open>_.set\<close> writes\<close>






























lemma isObject_cloneDeep: "isObject (cloneDeep doc) = isObject doc"
  by (cases doc) auto










text \<open>A root that is not an object is returned as it is.\<close>

lemma replace_scalar_root:
  "replace parse_examples object_members length_examples (JNum 5) ''a'' ''1''
     = Some (Inr \<lparr> original = JUndefined, new = JNum 1, path = ''a'', data = JNum 5 \<rparr>)"
  by code_simp

section \<open>replace leaves the processor's document alone\<close>

lemma repr_frame:
  "repr h v j \<Longrightarrow> length h \<le> length h' \<Longrightarrow> \<forall>a < length h. h' ! a = h ! a \<Longrightarrow> repr h' v j"
proof (induction j arbitrary: v)
  case (JArr js qs)
  from JArr.prems(1) obtain a vs ps where v: "v = VRef a" "a < length h" "h ! a = CArr vs ps"
    "list_all2 (repr h) vs js" "list_all2 (\<lambda>f q. fst f = fst q \<and> repr h (snd f) (snd q)) ps qs"
    by (auto split: hval.splits cell.splits)
  have 1: "list_all2 (repr h') vs js"
    using v(4) JArr.IH(1) JArr.prems(2,3)
    by (auto simp: list_all2_conv_all_nth)
  have 2: "list_all2 (\<lambda>f q. fst f = fst q \<and> repr h' (snd f) (snd q)) ps qs"
    using v(5) JArr.IH(2) JArr.prems(2,3)
    by (auto simp: list_all2_conv_all_nth) (metis nth_mem prod.collapse snds.intros)
  from v 1 2 JArr.prems(2,3) show ?case by simp
next
  case (JObj kvs)
  from JObj.prems(1) obtain a fs where v: "v = VRef a" "a < length h" "h ! a = CObj fs"
    "list_all2 (\<lambda>f q. fst f = fst q \<and> repr h (snd f) (snd q)) fs kvs"
    by (auto split: hval.splits cell.splits)
  have 2: "list_all2 (\<lambda>f q. fst f = fst q \<and> repr h' (snd f) (snd q)) fs kvs"
    using v(4) JObj.IH JObj.prems(2,3)
    by (auto simp: list_all2_conv_all_nth) (metis nth_mem prod.collapse snds.intros)
  from v 2 JObj.prems(2,3) show ?case by simp
qed auto






lemma size_field_mem: "q \<in> set qs \<Longrightarrow> size (snd q) \<le> size_list (size_prod (\<lambda>_. 0) size) qs"
proof -
  assume q: "q \<in> set qs"
  have "size_prod (\<lambda>_. 0) size q \<le> size_list (size_prod (\<lambda>_. 0) size) qs"
    using q by (simp add: size_list_estimation')
  then show ?thesis by (cases q) simp
qed

lemma size_elem_mem: "j \<in> set js \<Longrightarrow> size (j :: jv) \<le> size_list size js"
  by (simp add: size_list_estimation')





lemma lookup_h_refs: "lookup_h fs k = VRef b \<Longrightarrow> \<exists>e \<in> set fs. snd e = VRef b"
  by (force simp: lookup_h_def split: option.splits dest!: map_of_SomeD)

lemma cell_prop_refs: "cell_prop c k = VRef b \<Longrightarrow> b \<in> cell_refs c"
proof (cases c)
  case (CObj fs)
  assume "cell_prop c k = VRef b"
  with CObj obtain e where "e \<in> set fs" "snd e = VRef b" by (auto dest: lookup_h_refs)
  with CObj show ?thesis by force
next
  case (CArr vs ps)
  assume a: "cell_prop c k = VRef b"
  with CArr have nl: "k \<noteq> ''length''" by (auto split: if_splits)
  show ?thesis
  proof (cases "array_index k")
    case None
    with a CArr nl obtain e where "e \<in> set ps" "snd e = VRef b" by (auto dest: lookup_h_refs)
    with CArr show ?thesis by force
  next
    case (Some i)
    with a CArr nl have "i < length vs" "vs ! i = VRef b" by (auto split: if_splits)
    then have "VRef b \<in> set vs" by (metis nth_mem)
    with CArr show ?thesis by force
  qed
qed


lemma set_obj_assign:
  fixes fs :: "(string \<times> 'v) list"
  shows "set (obj_assign fs k v) \<subseteq> insert (k, v) (set fs)"
proof (cases "k \<in> set (map fst fs)")
  case True
  then show ?thesis by (auto simp: obj_assign_def split: if_splits)
next
  case False
  have "\<And>P. set (takeWhile P fs @ [(k, v)] @ dropWhile P fs) \<subseteq> insert (k, v) (set fs)"
    by (auto dest: set_takeWhileD set_dropWhileD)
  then have "set (obj_insert fs k v) \<subseteq> insert (k, v) (set fs)"
    by (auto simp: obj_insert_def split: option.splits)
  with False show ?thesis by (simp add: obj_assign_def)
qed

lemma cell_refs_assign:
  assumes "cell_assign len c k v = Inr c'"
  shows "cell_refs c' \<subseteq> cell_refs c \<union> val_refs v"
proof (cases c)
  case (CObj fs)
  with assms show ?thesis using set_obj_assign [of fs k v] by fastforce
next
  case (CArr vs ps)
  show ?thesis
  proof (cases "k = ''length''")
    case True
    with assms CArr obtain n where "c' = CArr (take n vs @ replicate (n - length vs) VUndefined) ps"
      by (auto split: sum.splits)
    with CArr show ?thesis by (auto dest: in_set_takeD)
  next
    case nl: False
    show ?thesis
    proof (cases "array_index k")
      case None
      with assms CArr nl show ?thesis using set_obj_assign [of ps k v] by fastforce
    next
      case (Some i)
      have "set (vs[i := v]) \<subseteq> insert v (set vs)" by (rule set_update_subset_insert)
      with assms CArr Some nl show ?thesis by (fastforce split: if_splits)
    qed
  qed
qed

lemma assignValue_h_refs:
  assumes "assignValue_h len c k v = Inr c'"
  shows "cell_refs c' \<subseteq> cell_refs c \<union> val_refs v"
proof (cases "cell_has c k \<and> cell_prop c k = v")
  case True
  with assms show ?thesis by (auto simp: assignValue_h_def)
next
  case False
  with assms have "cell_assign len c k v = Inr c'" by (auto simp: assignValue_h_def)
  then show ?thesis by (rule cell_refs_assign)
qed









lemma closed_from_write:
  assumes "closed_from n h" and "a < length h" and "cell_refs c \<subseteq> {n..<length h}"
  shows "closed_from n (h[a := c])"
  using assms by (auto simp: closed_from_def nth_list_update)

lemma closed_from_alloc:
  assumes "closed_from n h" and "cell_refs c \<subseteq> {n..<Suc (length h)}"
  shows "closed_from n (h @ [c])"
proof -
  have "\<And>a. n \<le> a \<Longrightarrow> a < length h \<Longrightarrow> cell_refs (h ! a) \<subseteq> {n..<Suc (length h)}"
    using assms(1) by (fastforce simp: closed_from_def)
  with assms(2) show ?thesis
    by (auto simp: closed_from_def nth_append less_Suc_eq)
qed

text \<open>
  Whatever the outcome of the walk, it writes to no cell below \<open>n\<close> when it starts from a
  container at or above \<open>n\<close> in a store whose cells from \<open>n\<close> on refer to such cells only.
\<close>

lemma set_keys_h_frame:
  "n \<le> a \<Longrightarrow> a < length h \<Longrightarrow> closed_from n h \<Longrightarrow>
   set_keys_h proto toLength h a ks v j = Some (out, h') \<Longrightarrow>
   take n h' = take n h \<and> length h \<le> length h'
   \<and> (val_refs v \<subseteq> {n..<length h} \<longrightarrow> closed_from n h')"
proof (induction ks arbitrary: h a)
  case Nil
  then show ?case by simp
next
  case (Cons k ks)
  note res = Cons.prems(4)
  have ca: "cell_refs (h ! a) \<subseteq> {n..<length h}" using Cons.prems by (simp add: closed_from_def)
  show ?case
  proof (cases "guarded_key k")
    case True
    with res Cons.prems(3) show ?thesis by (cases ks) auto
  next
    case g: False
    show ?thesis
    proof (cases ks)
      case Nil
      show ?thesis
      proof (cases "assignValue_h (toLength j) (h ! a) k v")
        case (Inl m)
        with res g Nil Cons.prems(3) show ?thesis by (auto split: if_splits)
      next
        case (Inr c)
        with res g Nil have h': "h' = h[a := c]" by (auto split: if_splits)
        have "val_refs v \<subseteq> {n..<length h} \<longrightarrow> closed_from n h'"
        proof
          assume "val_refs v \<subseteq> {n..<length h}"
          with assignValue_h_refs [OF Inr] ca have "cell_refs c \<subseteq> {n..<length h}" by blast
          from closed_from_write [OF Cons.prems(3,2) this] h' show "closed_from n h'" by simp
        qed
        with h' Cons.prems(1) show ?thesis by simp
      qed
    next
      case (Cons k' ks')
      from res g Cons have ni: "\<not> (\<not> cell_has (h ! a) k \<and> inherited proto k)" by (auto split: if_splits)
      show ?thesis
      proof (cases "\<exists>b. cell_prop (h ! a) k = VRef b")
        case True
        then obtain b where b: "cell_prop (h ! a) k = VRef b" by blast
        from cell_prop_refs [OF b] ca have nb: "n \<le> b" "b < length h" by auto
        have "set_keys_h proto toLength h b ks v j = Some (out, h')"
          using res g ni b Cons by simp
        from Cons.IH [OF nb Cons.prems(3) this] show ?thesis .
      next
        case nb: False
        let ?E = "if isIndex k' then CArr [] [] else CObj []"
        let ?J = "if isIndex k' then JArr [] [] else JObj []"
        let ?h1 = "h @ [?E]"
        have h1a: "?h1 ! a = h ! a" using Cons.prems(2) by (simp add: nth_append)
        have c1: "closed_from n ?h1" using Cons.prems(3) by (intro closed_from_alloc) auto
        have t1: "take n ?h1 = take n h" using Cons.prems(1,2) by simp
        have ni': "(\<not> cell_has (h ! a) k \<and> inherited proto k) = False" using ni by simp
        have "set_keys_h proto toLength h a (k # k' # ks') v j =
           (case cell_assign (toLength ?J) (h ! a) k (VRef (length h)) of
              Inl message \<Rightarrow> Some (Some message, ?h1)
            | Inr c \<Rightarrow> (case cell_prop c k of
                 VRef b' \<Rightarrow> set_keys_h proto toLength (?h1[a := c]) b' (k' # ks') v j
               | _ \<Rightarrow> None))"
          using nb g h1a by (cases "cell_prop (h ! a) k") (simp_all add: Let_def ni')
        then have step: "set_keys_h proto toLength h a (k # ks) v j =
           (case cell_assign (toLength ?J) (h ! a) k (VRef (length h)) of
              Inl message \<Rightarrow> Some (Some message, ?h1)
            | Inr c \<Rightarrow> (case cell_prop c k of
                 VRef b' \<Rightarrow> set_keys_h proto toLength (?h1[a := c]) b' ks v j
               | _ \<Rightarrow> None))"
          unfolding Cons .
        show ?thesis
        proof (cases "cell_assign (toLength ?J) (h ! a) k (VRef (length h))")
          case (Inl m)
          with res step have "h' = ?h1" by simp
          with c1 t1 show ?thesis by simp
        next
          case (Inr c)
          with res step obtain b' where b': "cell_prop c k = VRef b'"
            "set_keys_h proto toLength (?h1[a := c]) b' ks v j = Some (out, h')"
            by (auto split: hval.splits)
          have "cell_refs (h ! a) \<union> val_refs (VRef (length h)) \<subseteq> {n..<Suc (length h)}"
            using ca Cons.prems(1,2) by auto
          with cell_refs_assign [OF Inr] have "cell_refs c \<subseteq> {n..<Suc (length h)}"
            by (rule subset_trans)
          then have rc: "cell_refs c \<subseteq> {n..<length ?h1}" by simp
          let ?h2 = "?h1[a := c]"
          have c2: "closed_from n ?h2"
            using closed_from_write [OF c1 _ rc] Cons.prems(2) by simp
          from cell_prop_refs [OF b'(1)] rc have nb': "n \<le> b'" "b' < length ?h2" by auto
          from Cons.IH [OF nb' c2 b'(2)]
          have ih: "take n h' = take n ?h2" "length ?h2 \<le> length h'"
            "val_refs v \<subseteq> {n..<length ?h2} \<longrightarrow> closed_from n h'" by auto
          have "take n ?h2 = take n h" using Cons.prems(1,2) by simp
          moreover have "val_refs v \<subseteq> {n..<length h} \<longrightarrow> val_refs v \<subseteq> {n..<length ?h2}" by auto
          ultimately show ?thesis using ih by auto
        qed
      qed
    qed
  qed
qed

lemma grows_refl: "grows h h"
  by (auto simp: grows_def closed_from_def)

lemma grows_length: "grows h h' \<Longrightarrow> length h \<le> length h'"
  by (auto simp: grows_def)

lemma grows_trans:
  assumes "grows h h1" and "grows h1 h2"
  shows "grows h h2"
proof -
  from assms obtain e1 e2 where e: "h1 = h @ e1" "h2 = h1 @ e2" by (auto simp: grows_def)
  have "closed_from (length h) h2"
    unfolding closed_from_def
  proof (intro allI impI)
    fix a assume a: "length h \<le> a \<and> a < length h2"
    show "cell_refs (h2 ! a) \<subseteq> {length h..<length h2}"
    proof (cases "a < length h1")
      case True
      then have "h2 ! a = h1 ! a" using e(2) by (simp add: nth_append)
      moreover have "cell_refs (h1 ! a) \<subseteq> {length h..<length h1}"
        using assms(1) a True by (simp add: grows_def closed_from_def)
      ultimately show ?thesis using e(2) by auto
    next
      case False
      then have "cell_refs (h2 ! a) \<subseteq> {length h1..<length h2}"
        using assms(2) a by (simp add: grows_def closed_from_def)
      then show ?thesis using e(1) by auto
    qed
  qed
  with e show ?thesis by (simp add: grows_def)
qed

lemma grows_alloc:
  assumes "cell_refs c \<subseteq> {length h..<length h1}" and "grows h h1"
  shows "grows h (h1 @ [c])"
proof -
  from assms(2) obtain e where e: "h1 = h @ e" by (auto simp: grows_def)
  have "closed_from (length h) (h1 @ [c])"
    using assms by (intro closed_from_alloc) (auto simp: grows_def)
  with e show ?thesis by (simp add: grows_def)
qed

lemma repr_grows: "repr h v j \<Longrightarrow> grows h h' \<Longrightarrow> repr h' v j"
  by (rule repr_frame) (auto simp: grows_def nth_append)

lemma map_heap_spec:
  assumes "\<And>i g. i < length xs \<Longrightarrow> grows h g \<Longrightarrow>
             \<exists>y g'. f g (xs ! i) = Some (y, g') \<and> grows g g' \<and> Q i (length g) g' y"
    and "\<And>i m m' g g' y. Q i m g y \<Longrightarrow> grows g g' \<Longrightarrow> m' \<le> m \<Longrightarrow> Q i m' g' y"
  shows "\<exists>ys h'. map_heap f h xs = Some (ys, h') \<and> grows h h' \<and> length ys = length xs
           \<and> (\<forall>i < length xs. Q i (length h) h' (ys ! i))"
  using assms
proof (induction xs arbitrary: h Q)
  case Nil
  then show ?case by (simp add: grows_refl)
next
  case (Cons x xs)
  from Cons.prems(1) [of 0 h] obtain y g1 where y: "f h x = Some (y, g1)" "grows h g1"
    "Q 0 (length h) g1 y" by (auto simp: grows_refl)
  have "\<exists>ys h'. map_heap f g1 xs = Some (ys, h') \<and> grows g1 h' \<and> length ys = length xs
           \<and> (\<forall>i < length xs. Q (Suc i) (length g1) h' (ys ! i))"
  proof (rule Cons.IH)
    fix i g assume "i < length xs" "grows g1 g"
    then show "\<exists>y g'. f g (xs ! i) = Some (y, g') \<and> grows g g' \<and> Q (Suc i) (length g) g' y"
      using Cons.prems(1) [of "Suc i" g] grows_trans [OF y(2)] by simp
  next
    fix i m m' g g' y assume "Q (Suc i) m g y" "grows g g'" "m' \<le> m"
    then show "Q (Suc i) m' g' y" by (rule Cons.prems(2))
  qed
  then obtain ys h' where r: "map_heap f g1 xs = Some (ys, h')" "grows g1 h'" "length ys = length xs"
    "\<forall>i < length xs. Q (Suc i) (length g1) h' (ys ! i)" by blast
  have "\<forall>i < length (x # xs). Q i (length h) h' ((y # ys) ! i)"
  proof (intro allI impI)
    fix i assume i: "i < length (x # xs)"
    show "Q i (length h) h' ((y # ys) ! i)"
    proof (cases i)
      case 0
      with Cons.prems(2) [OF y(3) r(2), of "length h"] show ?thesis by simp
    next
      case (Suc i')
      with i r(4) have "Q (Suc i') (length g1) h' (ys ! i')" by simp
      from Cons.prems(2) [OF this grows_refl, of "length h"] grows_length [OF y(2)] Suc
      show ?thesis by simp
    qed
  qed
  with y(1) r(1,3) grows_trans [OF y(2) r(2)] show ?case by simp
qed


lemma repr_append: "repr h v j \<Longrightarrow> repr (h @ ext) v j"
  by (rule repr_frame) (auto simp: nth_append)

lemma cloneDeep_h_spec:
  "repr h v j \<Longrightarrow> parsed j \<Longrightarrow> size j < fuel \<Longrightarrow>
   \<exists>c h'. cloneDeep_h fuel h v = Some (c, h') \<and> grows h h' \<and> repr h' c j
          \<and> val_refs c \<subseteq> {length h..<length h'}"
proof (induction j arbitrary: h v fuel)
  case (JArr js qs)
  from JArr.prems(2) have qs: "qs = []" by simp
  from JArr.prems(1) qs obtain a vs where v: "v = VRef a" "a < length h" "h ! a = CArr vs []"
    "list_all2 (repr h) vs js"
    by (auto split: hval.splits cell.splits)
  from JArr.prems(3) obtain f where f: "fuel = Suc f" by (cases fuel) auto
  have len: "length vs = length js" using v(4) by (rule list_all2_lengthD)
  let ?Q = "\<lambda>i m g y. repr g y (js ! i) \<and> val_refs y \<subseteq> {m..<length g}"
  have "\<exists>ys h'. map_heap (cloneDeep_h f) h vs = Some (ys, h') \<and> grows h h' \<and> length ys = length vs
           \<and> (\<forall>i < length vs. ?Q i (length h) h' (ys ! i))"
  proof (rule map_heap_spec)
    fix i g assume i: "i < length vs" and g: "grows h g"
    have m: "js ! i \<in> set js" using i len by simp
    have "repr h (vs ! i) (js ! i)" using v(4) i by (simp add: list_all2_conv_all_nth)
    then have r: "repr g (vs ! i) (js ! i)" using g by (rule repr_grows)
    have p: "parsed (js ! i)" using JArr.prems(2) m by simp
    have "size (js ! i) \<le> size_list size js" using m by (rule size_elem_mem)
    then have s: "size (js ! i) < f" using JArr.prems(3) f by simp
    from JArr.IH(1) [OF m r p s]
    show "\<exists>y g'. cloneDeep_h f g (vs ! i) = Some (y, g') \<and> grows g g'
            \<and> (repr g' y (js ! i) \<and> val_refs y \<subseteq> {length g..<length g'})" by blast
  next
    fix i m m' g g' y assume "repr g y (js ! i) \<and> val_refs y \<subseteq> {m..<length g}" "grows g g'" "m' \<le> (m::nat)"
    then show "repr g' y (js ! i) \<and> val_refs y \<subseteq> {m'..<length g'}"
      using repr_grows grows_length by fastforce
  qed
  then obtain ys h1 where r: "map_heap (cloneDeep_h f) h vs = Some (ys, h1)" "grows h h1"
    "length ys = length vs" "\<forall>i < length vs. ?Q i (length h) h1 (ys ! i)" by blast
  let ?h' = "h1 @ [CArr ys []]"
  have c: "cloneDeep_h fuel h v = Some (VRef (length h1), ?h')"
    using v f r(1) by (simp add: clone_array_props_h_def)
  have refs: "cell_refs (CArr ys []) \<subseteq> {length h..<length h1}"
  proof
    fix x assume "x \<in> cell_refs (CArr ys [])"
    then obtain y where "y \<in> set ys" "x \<in> val_refs y" by auto
    then obtain i where "i < length ys" "ys ! i = y" by (auto simp: in_set_conv_nth)
    with r(3,4) have "val_refs y \<subseteq> {length h..<length h1}" by metis
    with \<open>x \<in> val_refs y\<close> show "x \<in> {length h..<length h1}" by blast
  qed
  have g: "grows h ?h'" using refs r(2) by (rule grows_alloc)
  have "list_all2 (repr ?h') ys js"
    using r(3,4) len by (auto simp: list_all2_conv_all_nth intro: repr_append)
  then have rp: "repr ?h' (VRef (length h1)) (JArr js qs)" using qs by simp
  have "val_refs (VRef (length h1)) \<subseteq> {length h..<length ?h'}"
    using grows_length [OF r(2)] by simp
  with c g rp show ?case by blast
next
  case (JObj kvs)
  from JObj.prems(1) obtain a fs where v: "v = VRef a" "a < length h" "h ! a = CObj fs"
    "list_all2 (\<lambda>f q. fst f = fst q \<and> repr h (snd f) (snd q)) fs kvs"
    by (auto split: hval.splits cell.splits)
  from JObj.prems(3) obtain f where f: "fuel = Suc f" by (cases fuel) auto
  have len: "length fs = length kvs" using v(4) by (rule list_all2_lengthD)
  let ?Q = "\<lambda>i m g y. fst y = fst (kvs ! i) \<and> repr g (snd y) (snd (kvs ! i)) \<and> val_refs (snd y) \<subseteq> {m..<length g}"
  have "\<exists>ys h'. map_heap (on_field (cloneDeep_h f)) h fs = Some (ys, h') \<and> grows h h' \<and> length ys = length fs
           \<and> (\<forall>i < length fs. ?Q i (length h) h' (ys ! i))"
  proof (rule map_heap_spec)
    fix i g assume i: "i < length fs" and g: "grows h g"
    have m: "kvs ! i \<in> set kvs" using i len by simp
    have sn: "snd (kvs ! i) \<in> Basic_BNFs.snds (kvs ! i)" by (cases "kvs ! i") simp
    have k: "fst (fs ! i) = fst (kvs ! i)" "repr h (snd (fs ! i)) (snd (kvs ! i))"
      using v(4) i by (simp_all add: list_all2_conv_all_nth)
    from k(2) have r: "repr g (snd (fs ! i)) (snd (kvs ! i))" using g by (rule repr_grows)
    have p: "parsed (snd (kvs ! i))" using JObj.prems(2) m by simp
    have "size (snd (kvs ! i)) \<le> size_list (size_prod (\<lambda>_. 0) size) kvs" using m by (rule size_field_mem)
    then have s: "size (snd (kvs ! i)) < f" using JObj.prems(3) f by simp
    from JObj.IH [OF m sn r p s] k(1)
    show "\<exists>y g'. on_field (cloneDeep_h f) g (fs ! i) = Some (y, g') \<and> grows g g'
            \<and> (fst y = fst (kvs ! i) \<and> repr g' (snd y) (snd (kvs ! i)) \<and> val_refs (snd y) \<subseteq> {length g..<length g'})"
      by (auto simp: on_field_def)
  next
    fix i m m' g g' y
    assume "fst y = fst (kvs ! i) \<and> repr g (snd y) (snd (kvs ! i)) \<and> val_refs (snd y) \<subseteq> {m..<length g}"
      "grows g g'" "m' \<le> (m::nat)"
    then show "fst y = fst (kvs ! i) \<and> repr g' (snd y) (snd (kvs ! i)) \<and> val_refs (snd y) \<subseteq> {m'..<length g'}"
      using repr_grows grows_length by fastforce
  qed
  then obtain ys h1 where r: "map_heap (on_field (cloneDeep_h f)) h fs = Some (ys, h1)" "grows h h1"
    "length ys = length fs" "\<forall>i < length fs. ?Q i (length h) h1 (ys ! i)" by blast
  let ?h' = "h1 @ [CObj ys]"
  have c: "cloneDeep_h fuel h v = Some (VRef (length h1), ?h')"
    using v f r(1) by simp
  have refs: "cell_refs (CObj ys) \<subseteq> {length h..<length h1}"
  proof
    fix x assume "x \<in> cell_refs (CObj ys)"
    then obtain y where "y \<in> set ys" "x \<in> val_refs (snd y)" by auto
    then obtain i where "i < length ys" "ys ! i = y" by (auto simp: in_set_conv_nth)
    with r(3,4) have "val_refs (snd y) \<subseteq> {length h..<length h1}" by metis
    with \<open>x \<in> val_refs (snd y)\<close> show "x \<in> {length h..<length h1}" by blast
  qed
  have g: "grows h ?h'" using refs r(2) by (rule grows_alloc)
  have "list_all2 (\<lambda>f q. fst f = fst q \<and> repr ?h' (snd f) (snd q)) ys kvs"
    using r(3,4) len by (auto simp: list_all2_conv_all_nth intro: repr_append)
  then have rp: "repr ?h' (VRef (length h1)) (JObj kvs)" by simp
  have "val_refs (VRef (length h1)) \<subseteq> {length h..<length ?h'}"
    using grows_length [OF r(2)] by simp
  with c g rp show ?case by blast
next
  case JNull
  then show ?case by (cases fuel) (auto simp: grows_refl)
next
  case (JBool b)
  then show ?case by (cases fuel) (auto simp: grows_refl)
next
  case (JNum n)
  then show ?case by (cases fuel) (auto simp: grows_refl)
next
  case (JStr s)
  then show ?case by (cases fuel) (auto simp: grows_refl)
next
  case JUndefined
  then show ?case by (cases fuel) (auto simp: grows_refl)
qed


lemma build_spec:
  "build h j = (v, h') \<Longrightarrow>
     grows h h' \<and> repr h' v j \<and> val_refs v \<subseteq> {length h..<length h'}"
  "build_list h js = (vs, h') \<Longrightarrow>
     grows h h' \<and> list_all2 (repr h') vs js \<and> (\<forall>x \<in> set vs. val_refs x \<subseteq> {length h..<length h'})"
  "build_fields h kvs = (fs, h') \<Longrightarrow>
     grows h h' \<and> list_all2 (\<lambda>f q. fst f = fst q \<and> repr h' (snd f) (snd q)) fs kvs
     \<and> (\<forall>e \<in> set fs. val_refs (snd e) \<subseteq> {length h..<length h'})"
proof (induction h j and h js and h kvs arbitrary: v h' and vs h' and fs h'
       rule: build_build_list_build_fields.induct)
  case (6 h xs ps)
  obtain ys h1 where 1: "build_list h xs = (ys, h1)" by (cases "build_list h xs")
  obtain gs h2 where 2: "build_fields h1 ps = (gs, h2)" by (cases "build_fields h1 ps")
  from 6(3) 1 2 have v: "v = VRef (length h2)" "h' = h2 @ [CArr ys gs]" by auto
  from 6(1) [OF 1] have a: "grows h h1" "list_all2 (repr h1) ys xs"
    "\<forall>x \<in> set ys. val_refs x \<subseteq> {length h..<length h1}" by auto
  from 6(2) [OF 1 [symmetric] 2] have b: "grows h1 h2"
    "list_all2 (\<lambda>f q. fst f = fst q \<and> repr h2 (snd f) (snd q)) gs ps"
    "\<forall>e \<in> set gs. val_refs (snd e) \<subseteq> {length h1..<length h2}" by auto
  have g2: "grows h h2" using a(1) b(1) by (rule grows_trans)
  have "cell_refs (CArr ys gs) \<subseteq> {length h..<length h2}"
    using a(3) b(3) grows_length [OF a(1)] grows_length [OF b(1)] by fastforce
  then have g: "grows h h'" unfolding v using g2 by (rule grows_alloc)
  have "list_all2 (repr h') ys xs"
    using a(2) repr_grows [OF _ b(1)] unfolding v
    by (auto simp: list_all2_conv_all_nth intro!: repr_append)
  moreover have "list_all2 (\<lambda>f q. fst f = fst q \<and> repr h' (snd f) (snd q)) gs ps"
    using b(2) unfolding v by (auto simp: list_all2_conv_all_nth intro!: repr_append)
  ultimately have "repr h' v (JArr xs ps)" unfolding v by simp
  moreover have "val_refs v \<subseteq> {length h..<length h'}" using grows_length [OF g2] v by simp
  ultimately show ?case using g by simp
next
  case (7 h kvs)
  obtain gs h1 where 1: "build_fields h kvs = (gs, h1)" by (cases "build_fields h kvs")
  from 7(2) 1 have v: "v = VRef (length h1)" "h' = h1 @ [CObj gs]" by auto
  from 7(1) [OF 1] have b: "grows h h1"
    "list_all2 (\<lambda>f q. fst f = fst q \<and> repr h1 (snd f) (snd q)) gs kvs"
    "\<forall>e \<in> set gs. val_refs (snd e) \<subseteq> {length h..<length h1}" by auto
  have "cell_refs (CObj gs) \<subseteq> {length h..<length h1}" using b(3) by fastforce
  then have g: "grows h h'" unfolding v using b(1) by (rule grows_alloc)
  have "list_all2 (\<lambda>f q. fst f = fst q \<and> repr h' (snd f) (snd q)) gs kvs"
    using b(2) unfolding v by (auto simp: list_all2_conv_all_nth intro!: repr_append)
  then have "repr h' v (JObj kvs)" unfolding v by simp
  moreover have "val_refs v \<subseteq> {length h..<length h'}" using grows_length [OF b(1)] v by simp
  ultimately show ?case using g by simp
next
  case (9 h x xs)
  obtain y h1 where 1: "build h x = (y, h1)" by (cases "build h x")
  obtain ys h2 where 2: "build_list h1 xs = (ys, h2)" by (cases "build_list h1 xs")
  from 9(3) 1 2 have v: "vs = y # ys" "h' = h2" by auto
  from 9(1) [OF 1] have a: "grows h h1" "repr h1 y x" "val_refs y \<subseteq> {length h..<length h1}" by auto
  from 9(2) [OF 1 [symmetric] 2] have b: "grows h1 h2" "list_all2 (repr h2) ys xs"
    "\<forall>x \<in> set ys. val_refs x \<subseteq> {length h1..<length h2}" by auto
  have "grows h h2" using a(1) b(1) by (rule grows_trans)
  moreover have "repr h2 y x" using a(2) b(1) by (rule repr_grows)
  moreover have "\<forall>x \<in> set (y # ys). val_refs x \<subseteq> {length h..<length h2}"
    using a(3) b(3) grows_length [OF a(1)] grows_length [OF b(1)] by fastforce
  ultimately show ?case using b(2) v by simp
next
  case (11 h e kvs)
  obtain y h1 where 1: "build h (snd e) = (y, h1)" by (cases "build h (snd e)")
  obtain ys h2 where 2: "build_fields h1 kvs = (ys, h2)" by (cases "build_fields h1 kvs")
  from 11(3) 1 2 have v: "fs = (fst e, y) # ys" "h' = h2" by auto
  from 11(1) [OF 1] have a: "grows h h1" "repr h1 y (snd e)" "val_refs y \<subseteq> {length h..<length h1}" by auto
  from 11(2) [OF 1 [symmetric] 2] have b: "grows h1 h2"
    "list_all2 (\<lambda>f q. fst f = fst q \<and> repr h2 (snd f) (snd q)) ys kvs"
    "\<forall>e \<in> set ys. val_refs (snd e) \<subseteq> {length h1..<length h2}" by auto
  have "grows h h2" using a(1) b(1) by (rule grows_trans)
  moreover have "repr h2 y (snd e)" using a(2) b(1) by (rule repr_grows)
  moreover have "\<forall>e \<in> set ((fst e, y) # ys). val_refs (snd e) \<subseteq> {length h..<length h2}"
    using a(3) b(3) grows_length [OF a(1)] grows_length [OF b(1)] by fastforce
  ultimately show ?case using b(2) v by simp
qed (auto simp: grows_refl)
















lemma grows_take: "grows h h' \<Longrightarrow> take (length h) h' = h"
  by (auto simp: grows_def)

lemma grows_nth: "grows h h' \<Longrightarrow> a < length h \<Longrightarrow> h' ! a = h ! a"
  by (auto simp: grows_def nth_append)


lemma take_nth_eq: "take n h' = take n h \<Longrightarrow> x < n \<Longrightarrow> h' ! x = h ! x"
  by (metis nth_take)


text \<open>
  The steps of \<open>replace\<close> up to \<open>_.set\<close>: the new value and the copy of the root are built
  from new cells, and the writes of \<open>_.set\<close>, whatever their outcome, stay within the cells
  that the call has allocated.
\<close>

lemma replace_heap_steps:
  assumes "repr h r doc" and "parsed doc" and "size doc < fuel"
  shows "\<exists>v h1 c h2. build h (case JSON_parse raw of Some j \<Rightarrow> j | None \<Rightarrow> JStr raw) = (v, h1)
           \<and> grows h h1 \<and> repr h1 v (case JSON_parse raw of Some j \<Rightarrow> j | None \<Rightarrow> JStr raw)
           \<and> cloneDeep_h fuel h1 r = Some (c, h2) \<and> grows h1 h2 \<and> repr h2 c doc
           \<and> val_refs c \<subseteq> {length h1..<length h2}
           \<and> (\<forall>out h3. lodash_set_h proto toLength h2 c p v (case JSON_parse raw of Some j \<Rightarrow> j | None \<Rightarrow> JStr raw)
                          = Some (out, h3)
                \<longrightarrow> closed_from (length h) h3 \<and> length h1 \<le> length h3
                    \<and> (\<forall>x < length h1. h3 ! x = h1 ! x))"
proof -
  let ?j = "case JSON_parse raw of Some j \<Rightarrow> j | None \<Rightarrow> JStr raw"
  obtain v h1 where b: "build h ?j = (v, h1)" by (cases "build h ?j")
  from build_spec(1) [OF b]
  have b1: "grows h h1" "repr h1 v ?j" "val_refs v \<subseteq> {length h..<length h1}" by auto
  have r1: "repr h1 r doc" using assms(1) b1(1) by (rule repr_grows)
  from cloneDeep_h_spec [OF r1 assms(2,3)]
  obtain c h2 where c: "cloneDeep_h fuel h1 r = Some (c, h2)" "grows h1 h2" "repr h2 c doc"
    "val_refs c \<subseteq> {length h1..<length h2}" by blast
  have g2: "grows h h2" using b1(1) c(2) by (rule grows_trans)
  have vr: "val_refs v \<subseteq> {length h..<length h2}" using b1(3) grows_length [OF c(2)] by auto
  have f: "\<forall>out h3. lodash_set_h proto toLength h2 c p v ?j = Some (out, h3)
            \<longrightarrow> closed_from (length h) h3 \<and> length h1 \<le> length h3 \<and> (\<forall>x < length h1. h3 ! x = h1 ! x)"
  proof (intro allI impI)
    fix out h3 assume s: "lodash_set_h proto toLength h2 c p v ?j = Some (out, h3)"
    show "closed_from (length h) h3 \<and> length h1 \<le> length h3 \<and> (\<forall>x < length h1. h3 ! x = h1 ! x)"
    proof (cases c)
      case (VRef a)
      then have ac: "length h1 \<le> a" "a < length h2" using c(4) by auto
      have n: "length h \<le> a" using ac(1) grows_length [OF b1(1)] by simp
      have cl: "closed_from (length h) h2" using g2 by (simp add: grows_def)
      have cl1: "closed_from (length h1) h2" using c(2) by (simp add: grows_def)
      from s VRef have s': "set_keys_h proto toLength h2 a (castPath_h p h2 c) v ?j = Some (out, h3)"
        by (simp add: lodash_set_h_def)
      from set_keys_h_frame [OF n ac(2) cl s'] vr
      have 1: "closed_from (length h) h3" "length h2 \<le> length h3" by auto
      from set_keys_h_frame [OF ac(1) ac(2) cl1 s']
      have 2: "take (length h1) h3 = take (length h1) h2" by simp
      have "\<forall>x < length h1. h3 ! x = h1 ! x"
        using take_nth_eq [OF 2] grows_nth [OF c(2)] by simp
      with 1 grows_length [OF c(2)] show ?thesis by simp
    next
      case VNull
      with s have "h3 = h2" by (simp add: lodash_set_h_def)
      with g2 c(2) show ?thesis by (simp add: grows_def grows_nth grows_length)
    next
      case (VBool x)
      with s have "h3 = h2" by (simp add: lodash_set_h_def)
      with g2 c(2) show ?thesis by (simp add: grows_def grows_nth grows_length)
    next
      case (VNum x)
      with s have "h3 = h2" by (simp add: lodash_set_h_def)
      with g2 c(2) show ?thesis by (simp add: grows_def grows_nth grows_length)
    next
      case (VStr x)
      with s have "h3 = h2" by (simp add: lodash_set_h_def)
      with g2 c(2) show ?thesis by (simp add: grows_def grows_nth grows_length)
    next
      case VUndefined
      with s have "h3 = h2" by (simp add: lodash_set_h_def)
      with g2 c(2) show ?thesis by (simp add: grows_def grows_nth grows_length)
    qed
  qed
  from b b1(1,2) c f show ?thesis by blast
qed

text \<open>
  Whatever the outcome of \<open>replace\<close>, a result or an error, no cell that the store had before
  the call is written, and the root stands for the same document afterwards.
\<close>

lemma replace_heap_frame:
  assumes "repr h r doc" and "parsed doc" and "size doc < fuel"
    and "replace_heap JSON_parse proto toLength fuel h r p raw = Some (out, h')"
  shows "take (length h) h' = h \<and> repr h' r doc"
proof -
  let ?j = "case JSON_parse raw of Some j \<Rightarrow> j | None \<Rightarrow> JStr raw"
  from replace_heap_steps [OF assms(1,2,3), where JSON_parse = JSON_parse and raw = raw
      and proto = proto and toLength = toLength and p = p]
  obtain v h1 c h2 where s: "build h ?j = (v, h1)" "grows h h1" "cloneDeep_h fuel h1 r = Some (c, h2)"
    and f: "\<forall>out h3. lodash_set_h proto toLength h2 c p v ?j = Some (out, h3)
            \<longrightarrow> closed_from (length h) h3 \<and> length h1 \<le> length h3 \<and> (\<forall>x < length h1. h3 ! x = h1 ! x)"
    by blast
  from assms(4) s(1,3) obtain o3 where "lodash_set_h proto toLength h2 c p v ?j = Some (o3, h')"
    by (auto simp: replace_heap_def Let_def split: option.splits prod.splits)
  with f have k: "length h1 \<le> length h'" "\<forall>x < length h1. h' ! x = h1 ! x" by blast+
  have old: "\<forall>x < length h. h' ! x = h ! x"
    using k(2) grows_nth [OF s(2)] grows_length [OF s(2)] by simp
  have len: "length h \<le> length h'" using k(1) grows_length [OF s(2)] by simp
  have "take (length h) h' = h" using old len by (simp add: list_eq_iff_nth_eq)
  moreover have "repr h' r doc" using assms(1) len old by (rule repr_frame)
  ultimately show ?thesis by simp
qed




text \<open>
  Where \<open>replace\<close> fails, the root is left alone as well: on the array \<open>[1, 2, 3]\<close> with the
  path \<open>length\<close> and the raw value \<open>hello\<close> the store keeps its old cell and gains the copy.
\<close>

lemma replace_heap_length_refused:
  "replace_heap parse_examples object_members length_examples 5 [CArr [VNum 1, VNum 2, VNum 3] []] (VRef 0)
      ''length'' ''hello''
     = Some (Inl ''Failed to replace value: Invalid array length'',
             [CArr [VNum 1, VNum 2, VNum 3] [], CArr [VNum 1, VNum 2, VNum 3] []])"
  by code_simp

section \<open>Further facts about the traversals and the handler\<close>

text \<open>\<open>listAllNodes\<close> lists one node per visited entry, in the order of the walk.\<close>

lemma listAllNodes_visited: "listAllNodes doc = map entry_node (visited doc)"
  by (simp add: listAllNodes_def visited_def traverse_nodes_visited)

text \<open>
  When the script throws \<open>null\<close> or \<open>undefined\<close>, the handler itself fails on
  \<open>error.message\<close>, and that \<open>TypeError\<close> leaves \<open>evaluate\<close> unwrapped.
\<close>

lemma evaluate_thrown_nullish:
  "runInContext (evaluate_code accessor) doc = Some (Inl ThrownNullish, doc')
   \<Longrightarrow> evaluate runInContext doc accessor = Some (Inl HandlerTypeError, doc')"
  by (simp add: evaluate_def)

end
